theory Spec2Isabelle
  imports Main
begin

section \<open>Strings\<close>

text \<open>
  Python's \<open>str\<close> is modelled by \<open>string\<close>; a character is a code point below 256.
  \<open>isspace\<close> is \<open>str.isspace\<close> on that range, which is also what \<open>\s\<close> of the
  \<open>re\<close> module matches and what \<open>str.strip\<close> removes: U+0009..U+000D,
  U+001C..U+0020, U+0085 and U+00A0.
\<close>

definition isspace :: "char \<Rightarrow> bool" where
  "isspace c =
     (let n = (of_char c :: nat)
      in (9 \<le> n \<and> n \<le> 13) \<or> (28 \<le> n \<and> n \<le> 32) \<or> n = 133 \<or> n = 160)"

definition lstrip :: "string \<Rightarrow> string" where
  "lstrip s = dropWhile isspace s"

definition rstrip :: "string \<Rightarrow> string" where
  "rstrip s = rev (dropWhile isspace (rev s))"

definition strip :: "string \<Rightarrow> string" where
  "strip s = rstrip (lstrip s)"

text \<open>\<open>line.rstrip("\n")\<close>: every trailing line feed is removed.\<close>

definition rstrip_nl :: "string \<Rightarrow> string" where
  "rstrip_nl s = rev (dropWhile (\<lambda>c. c = CHR 0x0A) (rev s))"

text \<open>\<open>s.startswith("#")\<close>.\<close>

definition startswith_hash :: "string \<Rightarrow> bool" where
  "startswith_hash s = (case s of [] \<Rightarrow> False | c # _ \<Rightarrow> c = CHR ''#'')"

text \<open>
  \<open>s.split(":", maxsplit)\<close>: the string is cut at the first \<open>maxsplit\<close> colons, and
  what follows the last cut is kept whole.
\<close>

fun split_colon :: "nat \<Rightarrow> string \<Rightarrow> string list" where
  "split_colon 0 s = [s]"
| "split_colon (Suc n) s =
     (if CHR '':'' \<in> set s
      then takeWhile (\<lambda>c. c \<noteq> CHR '':'') s
           # split_colon n (tl (dropWhile (\<lambda>c. c \<noteq> CHR '':'') s))
      else [s])"

text \<open>\<open>indent.replace("\t", "    ")\<close>.\<close>

definition expand_tabs :: "string \<Rightarrow> string" where
  "expand_tabs s = concat (map (\<lambda>c. if c = CHR 0x09 then ''    '' else [c]) s)"

text \<open>\<open>"\n".join(lines)\<close>.\<close>

fun join_nl :: "string list \<Rightarrow> string" where
  "join_nl [] = []"
| "join_nl [l] = l"
| "join_nl (l # ls) = l @ [CHR 0x0A] @ join_nl ls"

section \<open>Files\<close>

text \<open>
  What \<open>open(path, "r", encoding="utf-8")\<close> and \<open>readlines\<close> do at a path is the
  environment's choice. \<open>open\<close> raises an \<open>OSError\<close>: \<open>FileNotFoundError\<close> when the
  file or a directory on the path does not exist, \<open>NotADirectoryError\<close> when the path goes
  through a regular file, \<open>IsADirectoryError\<close> for a directory, \<open>PermissionError\<close> for a
  file that may not be read. Or the file opens and its bytes are not UTF-8, and
  \<open>readlines\<close> raises \<open>UnicodeDecodeError\<close>. Or the file holds a text.
  The file is opened in text mode with the default \<open>newline=None\<close>: on reading, every
  \<open>\r\n\<close> and every remaining \<open>\r\<close> becomes \<open>\n\<close>, and \<open>readlines\<close> cuts the text
  after each \<open>\n\<close>, which stays at the end of its line.
\<close>

datatype os_error =
  FileNotFoundError | PermissionError | IsADirectoryError | NotADirectoryError

datatype file_entry = Raises os_error | Undecodable | Text string

type_synonym filesystem = "string \<Rightarrow> file_entry"

fun universal_newlines :: "string \<Rightarrow> string" where
  "universal_newlines [] = []"
| "universal_newlines (c # cs) =
     (if c = CHR 0x0D
      then (case cs of
              [] \<Rightarrow> [CHR 0x0A]
            | d # ds \<Rightarrow> if d = CHR 0x0A then CHR 0x0A # universal_newlines ds
                       else CHR 0x0A # universal_newlines cs)
      else c # universal_newlines cs)"

fun split_lines :: "string \<Rightarrow> string \<Rightarrow> string list" where
  "split_lines cur [] = (if cur = [] then [] else [cur])"
| "split_lines cur (c # cs) =
     (if c = CHR 0x0A then (cur @ [c]) # split_lines [] cs
      else split_lines (cur @ [c]) cs)"

definition readlines :: "string \<Rightarrow> string list" where
  "readlines text = split_lines [] (universal_newlines text)"

section \<open>Tasks\<close>

text \<open>
  \<open>Task\<close> objects are mutable and shared: the parser's stack, the \<open>children\<close> lists
  and the \<open>parent\<close> links all refer to the same objects. The model keeps them in a
  store: a list of task records in which a reference to a task is its position.
  \<open>Task(...)\<close> allocates at the end of the store; no task is ever removed.
\<close>

record task =
  name :: string
  status :: string
  due :: string
  children :: "nat list"
  parent :: "nat option"
  depth :: nat

type_synonym store = "task list"

definition STATUS_CYCLE :: "string list" where
  "STATUS_CYCLE = [''OPEN'', ''IN_PROGRESS'', ''DONE'']"

definition STATUS_DEFAULT :: string where
  "STATUS_DEFAULT = ''OPEN''"

definition is_leaf :: "store \<Rightarrow> nat \<Rightarrow> bool" where
  "is_leaf h t = (children (h ! t) = [])"

definition set_status :: "store \<Rightarrow> nat \<Rightarrow> string \<Rightarrow> store" where
  "set_status h t s = h[t := (h ! t)\<lparr>status := s\<rparr>]"

definition recalc_status_from_children :: "store \<Rightarrow> nat \<Rightarrow> store" where
  "recalc_status_from_children h t =
     (if children (h ! t) = [] then h
      else
        let child_statuses = map (\<lambda>ch. status (h ! ch)) (children (h ! t))
        in if list_all (\<lambda>s. s = ''DONE'') child_statuses then set_status h t ''DONE''
           else if list_all (\<lambda>s. s = ''OPEN'') child_statuses then set_status h t ''OPEN''
           else set_status h t ''IN_PROGRESS'')"

text \<open>
  \<open>propagate_up\<close> follows the \<open>parent\<close> links. The recursion is bounded by fuel;
  \<open>None\<close> is a call that does not return.
\<close>

fun propagate_up :: "nat \<Rightarrow> store \<Rightarrow> nat \<Rightarrow> store option" where
  "propagate_up 0 h t = None"
| "propagate_up (Suc fuel) h t =
     (let h1 = (if children (h ! t) \<noteq> [] then recalc_status_from_children h t else h)
      in case parent (h1 ! t) of
           None \<Rightarrow> Some h1
         | Some p \<Rightarrow> propagate_up fuel h1 p)"

section \<open>Parsing\<close>

text \<open>
  The exceptions that reach a caller: a \<open>ValueError\<close> with its message, an \<open>OSError\<close>
  of \<open>open\<close> or \<open>write\<close>, the \<open>UnicodeDecodeError\<close> of \<open>readlines\<close>.
\<close>

datatype error = ValueError string | OSError | UnicodeDecodeError

record pstate =
  heap :: store
  tasks :: "nat list"
  stack :: "nat list"

text \<open>The groups of \<open>re.match(r"^(\s*)(.*)$", raw)\<close>, for a \<open>raw\<close> without line feed.\<close>

definition indent_of :: "string \<Rightarrow> string" where
  "indent_of raw = takeWhile isspace raw"

definition content_of :: "string \<Rightarrow> string" where
  "content_of raw = dropWhile isspace raw"

definition depth_of :: "string \<Rightarrow> nat" where
  "depth_of raw = length (expand_tabs (indent_of raw)) div 4"

text \<open>Lines 116 to 132: the new task is allocated and hung into the forest.\<close>

definition attach :: "string \<Rightarrow> nat \<Rightarrow> string \<Rightarrow> string \<Rightarrow> string \<Rightarrow> pstate \<Rightarrow> error + pstate" where
  "attach raw d nm st du s =
     (let t = length (heap s);
          h1 = heap s @ [\<lparr>name = nm, status = st, due = du, children = [], parent = None,
                          depth = d\<rparr>]
      in if d = 0 then Inr \<lparr>heap = h1, tasks = tasks s @ [t], stack = [t]\<rparr>
         else if d > length (stack s) then Inl (ValueError (''Nested too deeply: '' @ raw))
         else
           let p = stack s ! (d - 1);
               h2 = h1[t := (h1 ! t)\<lparr>parent := Some p\<rparr>];
               h3 = h2[p := (h2 ! p)\<lparr>children := children (h2 ! p) @ [t]\<rparr>]
           in if d = length (stack s)
              then Inr \<lparr>heap = h3, tasks = tasks s, stack = stack s @ [t]\<rparr>
              else Inr \<lparr>heap = h3, tasks = tasks s, stack = take (d + 1) ((stack s)[d := t])\<rparr>)"

text \<open>The body of the loop over the lines (lines 97 to 132).\<close>

definition parse_line :: "string \<Rightarrow> pstate \<Rightarrow> error + pstate" where
  "parse_line line s =
     (let raw = rstrip_nl line
      in if strip raw = [] \<or> startswith_hash (strip raw) then Inr s
         else
           (case split_colon 2 (content_of raw) of
              [nm, st, du] \<Rightarrow>
                attach raw (depth_of raw) (strip nm)
                  (if strip st = [] then STATUS_DEFAULT else strip st) (strip du) s
            | _ \<Rightarrow> Inl (ValueError (''Invalid line: '' @ raw))))"

fun parse_lines :: "string list \<Rightarrow> pstate \<Rightarrow> error + pstate" where
  "parse_lines [] s = Inr s"
| "parse_lines (l # ls) s =
     (case parse_line l s of Inl e \<Rightarrow> Inl e | Inr s' \<Rightarrow> parse_lines ls s')"

text \<open>
  \<open>for x in xs: f(x)\<close>, for a function \<open>f\<close> that changes a state and may not return.
\<close>

fun for_each :: "('s \<Rightarrow> 'a \<Rightarrow> 's option) \<Rightarrow> 's \<Rightarrow> 'a list \<Rightarrow> 's option" where
  "for_each f s [] = Some s"
| "for_each f s (x # xs) = (case f s x of None \<Rightarrow> None | Some s' \<Rightarrow> for_each f s' xs)"

text \<open>
  The nested \<open>walk\<close> of the parser: the children first, then the task itself. The
  recursion over the tree is bounded by fuel.
\<close>

fun walk :: "nat \<Rightarrow> store \<Rightarrow> nat \<Rightarrow> store option" where
  "walk 0 h t = None"
| "walk (Suc fuel) h t =
     (case for_each (\<lambda>h' ch. walk fuel h' ch) h (children (h ! t)) of
        None \<Rightarrow> None
      | Some h1 \<Rightarrow>
          Some (if children (h1 ! t) \<noteq> [] then recalc_status_from_children h1 t else h1))"

text \<open>
  A forest is the store together with the list of its roots, which is what the parser
  returns. The walk goes no deeper than there are tasks, so the number of tasks is its
  fuel; \<open>None\<close> stands for a call that does not return.
\<close>

record forest =
  store :: store
  roots :: "nat list"

definition empty_forest :: forest where
  "empty_forest = \<lparr>store = [], roots = []\<rparr>"

definition initial :: pstate where
  "initial = \<lparr>heap = [], tasks = [], stack = []\<rparr>"

definition parse_text :: "string \<Rightarrow> (error + forest) option" where
  "parse_text text =
     (case parse_lines (readlines text) initial of
        Inl e \<Rightarrow> Some (Inl e)
      | Inr s \<Rightarrow>
          (case for_each (walk (length (heap s))) (heap s) (tasks s) of
             None \<Rightarrow> None
           | Some h \<Rightarrow> Some (Inr \<lparr>store = h, roots = tasks s\<rparr>)))"

text \<open>
  The \<open>try\<close> around \<open>open\<close> and \<open>readlines\<close> has one handler,
  \<open>except FileNotFoundError: return []\<close>; every other exception leaves the function.
\<close>

definition parse_tasks_from_file :: "filesystem \<Rightarrow> string \<Rightarrow> (error + forest) option" where
  "parse_tasks_from_file fs path =
     (case fs path of
        Raises e \<Rightarrow>
          if e = FileNotFoundError then Some (Inr empty_forest) else Some (Inl OSError)
      | Undecodable \<Rightarrow> Some (Inl UnicodeDecodeError)
      | Text text \<Rightarrow> parse_text text)"

section \<open>Flattening and saving\<close>

text \<open>The nested \<open>walk\<close> of \<open>flatten_tasks\<close> appends to the shared \<open>result\<close>.\<close>

fun flatten_walk :: "nat \<Rightarrow> store \<Rightarrow> nat list \<Rightarrow> nat \<Rightarrow> nat list option" where
  "flatten_walk 0 h result t = None"
| "flatten_walk (Suc fuel) h result t =
     for_each (\<lambda>r ch. flatten_walk fuel h r ch) (result @ [t]) (children (h ! t))"

definition flatten_tasks :: "forest \<Rightarrow> nat list option" where
  "flatten_tasks F = for_each (flatten_walk (length (store F)) (store F)) [] (roots F)"

definition task_line :: "task \<Rightarrow> string" where
  "task_line t =
     replicate (4 * depth t) (CHR '' '') @ name t @ '':'' @ status t @ '':'' @ due t"

definition save_text :: "forest \<Rightarrow> string option" where
  "save_text F =
     (case flatten_tasks F of
        None \<Rightarrow> None
      | Some ts \<Rightarrow> Some (join_nl (map (\<lambda>t. task_line (store F ! t)) ts) @ [CHR 0x0A]))"

text \<open>
  \<open>open(path, "w")\<close> either fails and leaves the file as it is, or empties the file;
  the \<open>write\<close> that follows either stores the whole text or fails after a part of it
  has reached the file. Which of these happens is the environment's choice.
\<close>

datatype write_outcome = Written | OpenFails | WriteFails nat

definition save_tasks_to_file ::
  "string \<Rightarrow> forest \<Rightarrow> write_outcome \<Rightarrow> filesystem \<Rightarrow> ((error + unit) \<times> filesystem) option" where
  "save_tasks_to_file path F out fs =
     (case save_text F of
        None \<Rightarrow> None
      | Some text \<Rightarrow>
          Some (case out of
                  OpenFails \<Rightarrow> (Inl OSError, fs)
                | WriteFails k \<Rightarrow> (Inl OSError, fs(path := Text (take k text)))
                | Written \<Rightarrow> (Inr (), fs(path := Text text))))"

text \<open>\<open>save_with_handling\<close> catches \<open>OSError\<close> and nothing else.\<close>

definition save_with_handling ::
  "string \<Rightarrow> forest \<Rightarrow> write_outcome \<Rightarrow> filesystem \<Rightarrow> ((error + bool) \<times> filesystem) option" where
  "save_with_handling path F out fs =
     (case save_tasks_to_file path F out fs of
        None \<Rightarrow> None
      | Some (Inl OSError, fs') \<Rightarrow> Some (Inr False, fs')
      | Some (Inl (ValueError m), fs') \<Rightarrow> Some (Inl (ValueError m), fs')
      | Some (Inl UnicodeDecodeError, fs') \<Rightarrow> Some (Inl UnicodeDecodeError, fs')
      | Some (Inr _, fs') \<Rightarrow> Some (Inr True, fs'))"

section \<open>Actions\<close>

text \<open>
  The selection of the list view is an index or nothing. \<open>get_selected_task\<close> looks
  the index up in the flattened forest.
\<close>

definition get_selected_task :: "nat option \<Rightarrow> forest \<Rightarrow> nat option option" where
  "get_selected_task sel F =
     (case sel of
        None \<Rightarrow> Some None
      | Some idx \<Rightarrow>
          (case flatten_tasks F of
             None \<Rightarrow> None
           | Some ts \<Rightarrow> Some (if idx < length ts then Some (ts ! idx) else None)))"

text \<open>\<open>STATUS_CYCLE.index(s)\<close>, with \<open>None\<close> for the \<open>ValueError\<close>.\<close>

fun index_of :: "string list \<Rightarrow> string \<Rightarrow> nat option" where
  "index_of [] s = None"
| "index_of (x # xs) s = (if x = s then Some 0 else map_option Suc (index_of xs s))"

text \<open>
  \<open>action_toggle_status\<close>, lines 356 to 369. The two calls that follow redraw the list
  and write the file; they change no task.
\<close>

definition action_toggle_status :: "nat option \<Rightarrow> forest \<Rightarrow> forest option" where
  "action_toggle_status sel F =
     (case get_selected_task sel F of
        None \<Rightarrow> None
      | Some None \<Rightarrow> Some F
      | Some (Some t) \<Rightarrow>
          if \<not> is_leaf (store F) t then Some F
          else
            let idx = (case index_of STATUS_CYCLE (status (store F ! t)) of
                         Some i \<Rightarrow> i | None \<Rightarrow> 0);
                h1 = set_status (store F) t
                       (STATUS_CYCLE ! ((idx + 1) mod length STATUS_CYCLE))
            in (case propagate_up (length h1) h1 t of
                  None \<Rightarrow> None
                | Some h2 \<Rightarrow> Some (F\<lparr>store := h2\<rparr>)))"

text \<open>
  \<open>_add_subtask_worker\<close>, lines 381 to 402: \<open>parent\<close> is the task that was selected,
  \<open>result\<close> is what the dialog returned.
\<close>

definition add_subtask_worker ::
  "nat option \<Rightarrow> (string \<times> string) option \<Rightarrow> forest \<Rightarrow> forest option" where
  "add_subtask_worker par result F =
     (case result of
        None \<Rightarrow> Some F
      | Some (nm, du) \<Rightarrow>
          (case par of
             None \<Rightarrow>
               let new_root = length (store F);
                   h1 = store F @ [\<lparr>name = nm, status = ''OPEN'', due = du, children = [],
                                    parent = None, depth = 0\<rparr>];
                   rs = roots F @ [new_root]
               in (case propagate_up (length h1) h1 new_root of
                     None \<Rightarrow> None
                   | Some h2 \<Rightarrow> Some \<lparr>store = h2, roots = rs\<rparr>)
           | Some p \<Rightarrow>
               let new = length (store F);
                   h1 = store F @ [\<lparr>name = nm, status = ''OPEN'', due = du, children = [],
                                    parent = Some p, depth = depth (store F ! p) + 1\<rparr>];
                   h2 = h1[p := (h1 ! p)\<lparr>children := children (h1 ! p) @ [new]\<rparr>]
               in (case propagate_up (length h2) h2 new of
                     None \<Rightarrow> None
                   | Some h3 \<Rightarrow> Some \<lparr>store = h3, roots = roots F\<rparr>)))"

text \<open>
  The forests the application can hold: the one loaded on mount, and what the two
  mutating actions make of it. The parent of a new task is a task of the forest.
\<close>

inductive reachable :: "forest \<Rightarrow> bool" where
  mount: "parse_tasks_from_file fs path = Some (Inr F) \<Longrightarrow> reachable F"
| toggle: "reachable F \<Longrightarrow> action_toggle_status sel F = Some F' \<Longrightarrow> reachable F'"
| add: "reachable F \<Longrightarrow> par = None \<or> (\<exists>p. par = Some p \<and> p < length (store F)) \<Longrightarrow>
        add_subtask_worker par result F = Some F' \<Longrightarrow> reachable F'"

section \<open>Invariants\<close>

text \<open>The status that \<open>recalc_status_from_children\<close> derives from the children's.\<close>

definition derived_status :: "string list \<Rightarrow> string" where
  "derived_status ss =
     (if list_all (\<lambda>s. s = ''DONE'') ss then ''DONE''
      else if list_all (\<lambda>s. s = ''OPEN'') ss then ''OPEN''
      else ''IN_PROGRESS'')"

definition child_statuses :: "store \<Rightarrow> nat \<Rightarrow> string list" where
  "child_statuses h t = map (\<lambda>ch. status (h ! ch)) (children (h ! t))"

definition ok :: "store \<Rightarrow> nat \<Rightarrow> bool" where
  "ok h t = (children (h ! t) = [] \<or> status (h ! t) = derived_status (child_statuses h t))"

text \<open>A task without its status: what no status update changes.\<close>

definition shape :: "task \<Rightarrow> task" where
  "shape t = t\<lparr>status := []\<rparr>"

text \<open>
  The links of a store are those of a forest: children and parents agree, a child is
  allocated after its parent, and the roots are the tasks without parent.
\<close>

definition wf_store :: "store \<Rightarrow> nat list \<Rightarrow> bool" where
  "wf_store h rs =
     ((\<forall>t<length h. \<forall>c\<in>set (children (h ! t)).
          t < c \<and> c < length h \<and> parent (h ! c) = Some t) \<and>
      (\<forall>t<length h. \<forall>p. parent (h ! t) = Some p \<longrightarrow> p < t \<and> t \<in> set (children (h ! p))) \<and>
      (\<forall>r\<in>set rs. r < length h \<and> parent (h ! r) = None) \<and>
      (\<forall>t<length h. parent (h ! t) = None \<longrightarrow> t \<in> set rs))"

text \<open>The depth invariant, read along the parent links and along the children lists.\<close>

definition depth_ok :: "forest \<Rightarrow> bool" where
  "depth_ok F =
     ((\<forall>t<length (store F).
         (case parent (store F ! t) of
            None \<Rightarrow> t \<in> set (roots F) \<and> depth (store F ! t) = 0
          | Some p \<Rightarrow> p < length (store F) \<and> t \<in> set (children (store F ! p)) \<and>
                      depth (store F ! t) = depth (store F ! p) + 1)) \<and>
      (\<forall>r\<in>set (roots F).
         r < length (store F) \<and> parent (store F ! r) = None \<and> depth (store F ! r) = 0) \<and>
      (\<forall>t<length (store F). \<forall>c\<in>set (children (store F ! t)).
         c < length (store F) \<and> parent (store F ! c) = Some t \<and>
         depth (store F ! c) = depth (store F ! t) + 1))"

text \<open>The roll-up of the statuses, as three conditions on every task with children.\<close>

definition rollup_ok :: "forest \<Rightarrow> bool" where
  "rollup_ok F =
     (\<forall>t<length (store F). children (store F ! t) \<noteq> [] \<longrightarrow>
        ((status (store F ! t) = ''DONE'') =
           (\<forall>c\<in>set (children (store F ! t)). status (store F ! c) = ''DONE'')) \<and>
        ((status (store F ! t) = ''OPEN'') =
           (\<forall>c\<in>set (children (store F ! t)). status (store F ! c) = ''OPEN'')) \<and>
        ((status (store F ! t) = ''IN_PROGRESS'') =
           (\<not> (\<forall>c\<in>set (children (store F ! t)). status (store F ! c) = ''DONE'') \<and>
            \<not> (\<forall>c\<in>set (children (store F ! t)). status (store F ! c) = ''OPEN''))))"

text \<open>The lines the parser skips: blank lines and comments.\<close>

definition ignored :: "string \<Rightarrow> bool" where
  "ignored line =
     (strip (rstrip_nl line) = [] \<or> startswith_hash (strip (rstrip_nl line)))"

text \<open>The lines of a text for which the parser makes a task, in the order of the file.\<close>

definition task_lines :: "string \<Rightarrow> string list" where
  "task_lines text = filter (\<lambda>l. \<not> ignored l) (readlines text)"

text \<open>
  Hanging a new task \<open>c\<close> under the task \<open>p\<close>: \<open>c\<close> is allocated, and its reference
  is appended to the children of \<open>p\<close>. Both the parser and the add action do this.
\<close>

definition link :: "store \<Rightarrow> nat \<Rightarrow> task \<Rightarrow> store" where
  "link h p c =
     (h @ [c])[p := ((h @ [c]) ! p)\<lparr>children := children ((h @ [c]) ! p) @ [length h]\<rparr>]"

text \<open>The stored depth of every task follows from its parent link.\<close>

definition dep_ok :: "store \<Rightarrow> bool" where
  "dep_ok h =
     (\<forall>t<length h.
        depth (h ! t) = (case parent (h ! t) of None \<Rightarrow> 0 | Some p \<Rightarrow> Suc (depth (h ! p))))"

text \<open>The parser's stack holds, at position \<open>k\<close>, a task of depth \<open>k\<close>.\<close>

definition stack_ok :: "store \<Rightarrow> nat list \<Rightarrow> bool" where
  "stack_ok h st = (\<forall>k<length st. st ! k < length h \<and> depth (h ! (st ! k)) = k)"

text \<open>What the loop of the parser keeps true of its state.\<close>

definition pinv :: "pstate \<Rightarrow> bool" where
  "pinv s = (wf_store (heap s) (tasks s) \<and> dep_ok (heap s) \<and> stack_ok (heap s) (stack s))"

text \<open>
  The pre-order traversal of the tree below a task, and of the trees below a list of
  tasks, as a relation: \<open>trav h t xs\<close> holds when the walk of \<open>flatten_tasks\<close> from
  \<open>t\<close> visits exactly \<open>xs\<close>, in this order.
\<close>

inductive trav :: "store \<Rightarrow> nat \<Rightarrow> nat list \<Rightarrow> bool"
  and travs :: "store \<Rightarrow> nat list \<Rightarrow> nat list \<Rightarrow> bool"
  for h :: store where
  node: "travs h (children (h ! t)) xs \<Longrightarrow> trav h t (t # xs)"
| nil: "travs h [] []"
| cons: "trav h c xs \<Longrightarrow> travs h cs ys \<Longrightarrow> travs h (c # cs) (xs @ ys)"

text \<open>
  In a store built by the parser the tasks are allocated in pre-order: the tree below
  a task is an interval of references, the trees below the roots make up the whole
  store, and the tree below a task on the stack reaches the end of the store.
\<close>

definition cinv :: "pstate \<Rightarrow> bool" where
  "cinv s =
     (pinv s \<and>
      (\<forall>t<length (heap s). \<exists>e. t < e \<and> e \<le> length (heap s) \<and> trav (heap s) t [t..<e]) \<and>
      travs (heap s) (tasks s) [0..<length (heap s)] \<and>
      (\<forall>k<length (stack s). trav (heap s) (stack s ! k) [stack s ! k..<length (heap s)]) \<and>
      sorted (stack s))"

text \<open>
  What the parser's walk over the tasks \<open>xs\<close> makes of a store \<open>g\<close> with the links of
  \<open>h\<close>: only statuses change, and only those of tasks of \<open>xs\<close> that have children,
  each of which ends with the status derived from its children.
\<close>

definition walked :: "store \<Rightarrow> nat list \<Rightarrow> store \<Rightarrow> store \<Rightarrow> bool" where
  "walked h xs g g' =
     (map shape g' = map shape h \<and>
      (\<forall>u. u \<notin> set xs \<longrightarrow> g' ! u = g ! u) \<and>
      (\<forall>u\<in>set xs. children (h ! u) = [] \<longrightarrow> g' ! u = g ! u) \<and>
      (\<forall>u\<in>set xs. ok g' u))"

text \<open>What every forest of the application satisfies.\<close>

definition finv :: "forest \<Rightarrow> bool" where
  "finv F =
     (wf_store (store F) (roots F) \<and> dep_ok (store F) \<and>
      (\<forall>u<length (store F). ok (store F) u))"

text \<open>The status that \<open>action_toggle_status\<close> computes from the current one.\<close>

definition next_status :: "string \<Rightarrow> string" where
  "next_status s =
     STATUS_CYCLE !
       (((case index_of STATUS_CYCLE s of Some i \<Rightarrow> i | None \<Rightarrow> 0) + 1)
          mod length STATUS_CYCLE)"

section \<open>Example files\<close>

text \<open>A parent with one child done and one open, and the forest it loads as.\<close>

definition mixed_text :: string where
  "mixed_text = ''A:OPEN:\<newline>    B:DONE:\<newline>    C:OPEN:\<newline>''"

definition mixed_files :: filesystem where
  "mixed_files = (\<lambda>p. Text mixed_text)"

definition mixed :: forest where
  "mixed =
     \<lparr>store =
        [\<lparr>name = ''A'', status = ''IN_PROGRESS'', due = [], children = [1, 2],
            parent = None, depth = 0\<rparr>,
         \<lparr>name = ''B'', status = ''DONE'', due = [], children = [], parent = Some 0,
            depth = 1\<rparr>,
         \<lparr>name = ''C'', status = ''OPEN'', due = [], children = [], parent = Some 0,
            depth = 1\<rparr>],
      roots = [0]\<rparr>"

text \<open>A file whose only task has a status outside the cycle.\<close>

definition odd_files :: filesystem where
  "odd_files = (\<lambda>p. Text ''Review:WAITING:'')"

definition odd :: forest where
  "odd =
     \<lparr>store = [\<lparr>name = ''Review'', status = ''WAITING'', due = [], children = [],
                  parent = None, depth = 0\<rparr>],
      roots = [0]\<rparr>"

text \<open>A file whose only task has empty status and due fields.\<close>

definition milk_files :: filesystem where
  "milk_files = (\<lambda>p. Text ''Buy milk::'')"

definition milk :: forest where
  "milk =
     \<lparr>store = [\<lparr>name = ''Buy milk'', status = ''OPEN'', due = [], children = [],
                  parent = None, depth = 0\<rparr>],
      roots = [0]\<rparr>"

text \<open>A file whose only task has a time of day as its due field.\<close>

definition timed_files :: filesystem where
  "timed_files = (\<lambda>p. Text ''Launch:OPEN: 12:30'')"

definition timed :: forest where
  "timed =
     \<lparr>store = [\<lparr>name = ''Launch'', status = ''OPEN'', due = ''12:30'', children = [],
                  parent = None, depth = 0\<rparr>],
      roots = [0]\<rparr>"

text \<open>A file whose only line is indented by one level, and one whose only line has one colon.\<close>

definition orphan_files :: filesystem where
  "orphan_files = (\<lambda>p. Text ''    X:OPEN:'')"

definition short_files :: filesystem where
  "short_files = (\<lambda>p. Text ''Launch:OPEN'')"

text \<open>A file system in which no file may be read.\<close>

definition locked_files :: filesystem where
  "locked_files = (\<lambda>p. Raises PermissionError)"

text \<open>A file system in which every path goes through a regular file.\<close>

definition blocked_files :: filesystem where
  "blocked_files = (\<lambda>p. Raises NotADirectoryError)"

section \<open>Fields and lines\<close>

text \<open>A string that \<open>strip\<close> leaves as it is.\<close>

definition stripped :: "string \<Rightarrow> bool" where
  "stripped s = (s = [] \<or> (\<not> isspace (hd s) \<and> \<not> isspace (last s)))"

text \<open>A string without line feed and carriage return.\<close>

definition clean :: "string \<Rightarrow> bool" where
  "clean s = (CHR 0x0A \<notin> set s \<and> CHR 0x0D \<notin> set s)"

text \<open>What holds of the three fields of every task the parser creates.\<close>

definition fields_ok :: "task \<Rightarrow> bool" where
  "fields_ok c =
     (stripped (name c) \<and> CHR '':'' \<notin> set (name c) \<and> clean (name c) \<and>
      (name c \<noteq> [] \<longrightarrow> hd (name c) \<noteq> CHR ''#'') \<and>
      stripped (status c) \<and> status c \<noteq> [] \<and> CHR '':'' \<notin> set (status c) \<and>
      clean (status c) \<and>
      stripped (due c) \<and> clean (due c))"

text \<open>A line as \<open>readlines\<close> returns it: at most one line feed, at its end.\<close>

definition line_ok :: "string \<Rightarrow> bool" where
  "line_ok l = (CHR 0x0D \<notin> set l \<and> CHR 0x0A \<notin> set (butlast l))"

text \<open>The store \<open>g\<close> with the statuses of the store \<open>h\<close>.\<close>

definition restat :: "store \<Rightarrow> store \<Rightarrow> store" where
  "restat h g = map (\<lambda>(a, b). b\<lparr>status := status a\<rparr>) (zip h g)"

definition fall :: "store \<Rightarrow> bool" where
  "fall h = (\<forall>t<length h. fields_ok (h ! t))"

text \<open>A task without its children: what hanging further tasks into the store keeps.\<close>

definition payload :: "task \<Rightarrow> task" where
  "payload c = c\<lparr>children := []\<rparr>"

text \<open>No leaf has an empty status.\<close>

definition lnz :: "store \<Rightarrow> bool" where
  "lnz h = (\<forall>u<length h. children (h ! u) = [] \<longrightarrow> status (h ! u) \<noteq> [])"

section \<open>Status propagation\<close>

lemma shape_eq_iff:
  "shape a = shape b \<longleftrightarrow>
     name a = name b \<and> due a = due b \<and> children a = children b \<and>
     parent a = parent b \<and> depth a = depth b"
  by (cases a, cases b) (simp add: shape_def)

lemma same_shape_nth:
  assumes "map shape h' = map shape h" "t < length h"
  shows "shape (h' ! t) = shape (h ! t)"
proof -
  have "length h' = length h" using assms(1) by (metis length_map)
  then have "map shape h' ! t = shape (h' ! t)" "map shape h ! t = shape (h ! t)"
    using assms(2) by simp_all
  then show ?thesis using assms(1) by simp
qed

lemma same_shape_length: "map shape h' = map shape h \<Longrightarrow> length h' = length h"
  by (metis length_map)

lemma same_shape_fields:
  assumes "map shape h' = map shape h" "t < length h"
  shows "children (h' ! t) = children (h ! t)" "parent (h' ! t) = parent (h ! t)"
    "depth (h' ! t) = depth (h ! t)" "name (h' ! t) = name (h ! t)" "due (h' ! t) = due (h ! t)"
  using same_shape_nth[OF assms] by (simp_all add: shape_eq_iff)

lemma shape_set_status: "map shape (set_status h t s) = map shape h"
proof (rule nth_equalityI)
  show "length (map shape (set_status h t s)) = length (map shape h)"
    by (simp add: set_status_def)
next
  fix i assume "i < length (map shape (set_status h t s))"
  then have i: "i < length h" by (simp add: set_status_def)
  show "map shape (set_status h t s) ! i = map shape h ! i"
    using i by (cases "i = t") (simp_all add: set_status_def shape_def)
qed

lemma recalc_eq:
  "recalc_status_from_children h t =
     (if children (h ! t) = [] then h else set_status h t (derived_status (child_statuses h t)))"
  by (simp add: recalc_status_from_children_def derived_status_def child_statuses_def Let_def)

lemma shape_recalc: "map shape (recalc_status_from_children h t) = map shape h"
  by (simp add: recalc_eq shape_set_status)

lemma wf_child:
  "wf_store h rs \<Longrightarrow> t < length h \<Longrightarrow> c \<in> set (children (h ! t)) \<Longrightarrow>
     t < c \<and> c < length h \<and> parent (h ! c) = Some t"
  unfolding wf_store_def by blast

lemma wf_parent:
  "wf_store h rs \<Longrightarrow> t < length h \<Longrightarrow> parent (h ! t) = Some p \<Longrightarrow>
     p < t \<and> t \<in> set (children (h ! p))"
  unfolding wf_store_def by blast

lemma wf_root:
  "wf_store h rs \<Longrightarrow> r \<in> set rs \<Longrightarrow> r < length h \<and> parent (h ! r) = None"
  unfolding wf_store_def by blast

lemma wf_orphan:
  "wf_store h rs \<Longrightarrow> t < length h \<Longrightarrow> parent (h ! t) = None \<Longrightarrow> t \<in> set rs"
  unfolding wf_store_def by blast

lemma wf_store_shape:
  assumes w: "wf_store h rs" and s: "map shape h' = map shape h"
  shows "wf_store h' rs"
proof -
  have l: "length h' = length h" by (rule same_shape_length[OF s])
  have c: "\<And>t. t < length h \<Longrightarrow> children (h' ! t) = children (h ! t)"
    and p: "\<And>t. t < length h \<Longrightarrow> parent (h' ! t) = parent (h ! t)"
    using same_shape_fields[OF s] by auto
  note w1 = wf_child[OF w] and w2 = wf_parent[OF w] and w3 = wf_root[OF w]
    and w4 = wf_orphan[OF w]
  show ?thesis
    unfolding wf_store_def l
  proof (intro conjI allI impI ballI)
    fix t c assume t: "t < length h" and "c \<in> set (children (h' ! t))"
    then have "c \<in> set (children (h ! t))" using c by simp
    from w1[OF t this] show "t < c" "c < length h" "parent (h' ! c) = Some t"
      using p[of c] by simp_all
  next
    fix t q assume t: "t < length h" and "parent (h' ! t) = Some q"
    then have "parent (h ! t) = Some q" using p by simp
    from w2[OF t this] have q: "q < t" "t \<in> set (children (h ! q))" by simp_all
    then have "q < length h" using t by simp
    then show "q < t" "t \<in> set (children (h' ! q))" using q c[of q] by simp_all
  next
    fix r assume "r \<in> set rs"
    from w3[OF this] show "r < length h" "parent (h' ! r) = None" using p[of r] by simp_all
  next
    fix t assume t: "t < length h" and "parent (h' ! t) = None"
    then have "parent (h ! t) = None" using p by simp
    from w4[OF t this] show "t \<in> set rs" .
  qed
qed

lemma set_status_nth_other: "u \<noteq> t \<Longrightarrow> set_status h t s ! u = h ! u"
  by (simp add: set_status_def)

lemma set_status_nth_same:
  "t < length h \<Longrightarrow> set_status h t s ! t = (h ! t)\<lparr>status := s\<rparr>"
  by (simp add: set_status_def)

lemma length_set_status: "length (set_status h t s) = length h"
  by (simp add: set_status_def)

lemma child_statuses_set_status:
  assumes "t \<notin> set (children (h ! u))" "u \<noteq> t"
  shows "child_statuses (set_status h t s) u = child_statuses h u"
proof -
  have "\<And>x. x \<in> set (children (h ! u)) \<Longrightarrow> x \<noteq> t" using assms(1) by blast
  then show ?thesis using assms(2) by (simp add: child_statuses_def set_status_nth_other)
qed

lemma ok_set_status_other:
  assumes "t \<notin> set (children (h ! u))" "u \<noteq> t"
  shows "ok (set_status h t s) u = ok h u"
  using assms by (simp add: ok_def child_statuses_set_status set_status_nth_other)

lemma ok_recalc_self:
  assumes "t < length h" "t \<notin> set (children (h ! t))"
  shows "ok (recalc_status_from_children h t) t"
proof (cases "children (h ! t) = []")
  case True
  then show ?thesis by (simp add: recalc_eq ok_def)
next
  case False
  let ?s = "derived_status (child_statuses h t)"
  have "\<And>x. x \<in> set (children (h ! t)) \<Longrightarrow> x \<noteq> t" using assms(2) by blast
  then have "child_statuses (set_status h t ?s) t = child_statuses h t"
    by (simp add: child_statuses_def set_status_nth_other set_status_nth_same assms(1))
  then show ?thesis
    using False assms(1) by (simp add: recalc_eq ok_def set_status_nth_same)
qed

lemma recalc_nth_other: "u \<noteq> t \<Longrightarrow> recalc_status_from_children h t ! u = h ! u"
  by (simp add: recalc_eq set_status_nth_other)

lemma recalc_leaf: "children (h ! t) = [] \<Longrightarrow> recalc_status_from_children h t = h"
  by (simp add: recalc_eq)

lemma ok_recalc_other:
  assumes "t \<notin> set (children (h ! u))" "u \<noteq> t"
  shows "ok (recalc_status_from_children h t) u = ok h u"
  using assms by (simp add: recalc_eq ok_set_status_other)

lemma propagate_up_ok:
  assumes "wf_store h rs" "t < length h" "t < f"
    "\<forall>u<length h. u \<noteq> t \<and> parent (h ! t) \<noteq> Some u \<longrightarrow> ok h u"
  shows "\<exists>h'. propagate_up f h t = Some h' \<and> map shape h' = map shape h \<and>
           (\<forall>u<length h. ok h' u) \<and> (\<forall>u<length h. children (h ! u) = [] \<longrightarrow> h' ! u = h ! u)"
  using assms
proof (induction f arbitrary: h t)
  case 0
  then show ?case by simp
next
  case (Suc f)
  define h1 where "h1 = (if children (h ! t) \<noteq> [] then recalc_status_from_children h t else h)"
  have h1: "h1 = recalc_status_from_children h t"
    by (simp add: h1_def recalc_leaf)
  have sh: "map shape h1 = map shape h" by (simp add: h1 shape_recalc)
  have len: "length h1 = length h" by (rule same_shape_length[OF sh])
  have wf1: "wf_store h1 rs" by (rule wf_store_shape[OF Suc.prems(1) sh])
  have par: "parent (h1 ! t) = parent (h ! t)"
    using same_shape_fields(2)[OF sh Suc.prems(2)] .
  have tnot: "t \<notin> set (children (h ! t))"
    using wf_child[OF Suc.prems(1) Suc.prems(2)] by blast
  have okt: "ok h1 t" unfolding h1 by (rule ok_recalc_self[OF Suc.prems(2) tnot])
  have others: "ok h1 u" if "u < length h" "u \<noteq> t" "parent (h ! t) \<noteq> Some u" for u
  proof -
    have "t \<notin> set (children (h ! u))"
      using wf_child[OF Suc.prems(1) that(1)] that(3) by blast
    then have "ok h1 u = ok h u" unfolding h1 using that(2) by (simp add: ok_recalc_other)
    then show ?thesis using Suc.prems(4) that by simp
  qed
  have leaves: "h1 ! u = h ! u" if "children (h ! u) = []" for u
  proof (cases "u = t")
    case True
    then show ?thesis unfolding h1 using that recalc_leaf[of h t] by simp
  next
    case False
    then show ?thesis unfolding h1 by (rule recalc_nth_other)
  qed
  have "propagate_up (Suc f) h t =
      (case parent (h1 ! t) of None \<Rightarrow> Some h1 | Some p \<Rightarrow> propagate_up f h1 p)"
    unfolding h1_def by (simp only: propagate_up.simps Let_def)
  then have step: "propagate_up (Suc f) h t =
      (case parent (h ! t) of None \<Rightarrow> Some h1 | Some p \<Rightarrow> propagate_up f h1 p)"
    by (simp only: par)
  show ?case
  proof (cases "parent (h ! t)")
    case None
    have r: "propagate_up (Suc f) h t = Some h1"
      by (simp only: step None option.case)
    have a: "\<forall>u<length h. ok h1 u"
    proof (intro allI impI)
      fix u assume "u < length h"
      then show "ok h1 u" using okt others[of u] None by (cases "u = t") simp_all
    qed
    have b: "\<forall>u<length h. children (h ! u) = [] \<longrightarrow> h1 ! u = h ! u"
      using leaves by blast
    show ?thesis using r sh a b by blast
  next
    case (Some p)
    have r: "propagate_up (Suc f) h t = propagate_up f h1 p"
      by (simp only: step Some option.case)
    have p: "p < t" using wf_parent[OF Suc.prems(1) Suc.prems(2) Some] by simp
    then have pl: "p < length h1" "p < f" using Suc.prems(2,3) len by simp_all
    have hyp: "\<forall>u<length h1. u \<noteq> p \<and> parent (h1 ! p) \<noteq> Some u \<longrightarrow> ok h1 u"
    proof (intro allI impI)
      fix u assume "u < length h1" "u \<noteq> p \<and> parent (h1 ! p) \<noteq> Some u"
      then show "ok h1 u"
        using okt others[of u] Some len by (cases "u = t") simp_all
    qed
    from Suc.IH[OF wf1 pl hyp] obtain h' where h':
      "propagate_up f h1 p = Some h'" "map shape h' = map shape h1"
      "\<forall>u<length h1. ok h' u" "\<forall>u<length h1. children (h1 ! u) = [] \<longrightarrow> h' ! u = h1 ! u"
      by blast
    have b: "\<forall>u<length h. children (h ! u) = [] \<longrightarrow> h' ! u = h ! u"
    proof (intro allI impI)
      fix u assume u: "u < length h" "children (h ! u) = []"
      have "children (h1 ! u) = []" using same_shape_fields(1)[OF sh u(1)] u(2) by simp
      then have "h' ! u = h1 ! u" using h'(4) u(1) len by simp
      then show "h' ! u = h ! u" using leaves[OF u(2)] by simp
    qed
    have a: "\<forall>u<length h. ok h' u" using h'(3) len by simp
    have c: "map shape h' = map shape h" using h'(2) sh by simp
    have "propagate_up (Suc f) h t = Some h'" using r h'(1) by (simp only:)
    then show ?thesis using a b c by blast
  qed
qed

lemma not_isspace_colon [simp]: "\<not> isspace (CHR '':'')"
  by (simp add: isspace_def)

lemma not_isspace_hash [simp]: "\<not> isspace (CHR ''#'')"
  by (simp add: isspace_def)

lemma isspace_space [simp]: "isspace (CHR '' '')"
  by (simp add: isspace_def)

lemma isspace_lf [simp]: "isspace (CHR 0x0A)"
  by (simp add: isspace_def)

lemma isspace_cr [simp]: "isspace (CHR 0x0D)"
  by (simp add: isspace_def)

lemma cut_at_colon:
  assumes "CHR '':'' \<in> set s"
  shows "s = takeWhile (\<lambda>c. c \<noteq> CHR '':'') s @ CHR '':'' # tl (dropWhile (\<lambda>c. c \<noteq> CHR '':'') s)"
proof -
  have ne: "dropWhile (\<lambda>c. c \<noteq> CHR '':'') s \<noteq> []"
    using assms by (simp add: dropWhile_eq_Nil_conv) 
  then have "hd (dropWhile (\<lambda>c. c \<noteq> CHR '':'') s) = CHR '':''"
    using hd_dropWhile[of "\<lambda>c. c \<noteq> CHR '':''" s] by simp
  then have "dropWhile (\<lambda>c. c \<noteq> CHR '':'') s = CHR '':'' # tl (dropWhile (\<lambda>c. c \<noteq> CHR '':'') s)"
    using ne by (metis list.collapse)
  then show ?thesis
    using takeWhile_dropWhile_id[of "\<lambda>c. c \<noteq> CHR '':''" s] by simp
qed

lemma takeWhile_no_colon: "CHR '':'' \<notin> set (takeWhile (\<lambda>c. c \<noteq> CHR '':'') s)"
  using set_takeWhileD by fastforce

lemma count_no_colon: "CHR '':'' \<notin> set s \<Longrightarrow> count_list s (CHR '':'') = 0"
  by (simp add: count_list_0_iff)

lemma count_cut:
  assumes "CHR '':'' \<in> set s"
  shows "count_list s (CHR '':'') =
           Suc (count_list (tl (dropWhile (\<lambda>c. c \<noteq> CHR '':'') s)) (CHR '':''))"
proof -
  let ?a = "takeWhile (\<lambda>c. c \<noteq> CHR '':'') s"
  let ?r = "tl (dropWhile (\<lambda>c. c \<noteq> CHR '':'') s)"
  have "count_list s (CHR '':'') = count_list (?a @ CHR '':'' # ?r) (CHR '':'')"
    using cut_at_colon[OF assms] by simp
  also have "\<dots> = Suc (count_list ?r (CHR '':''))"
    by (simp add: count_no_colon[OF takeWhile_no_colon])
  finally show ?thesis .
qed

lemma length_split_colon:
  "length (split_colon n s) = Suc (min n (count_list s (CHR '':'')))"
proof (induction n arbitrary: s)
  case 0
  then show ?case by simp
next
  case (Suc n)
  show ?case
  proof (cases "CHR '':'' \<in> set s")
    case True
    then show ?thesis using Suc.IH count_cut[OF True] by simp
  next
    case False
    then show ?thesis by (simp add: count_no_colon)
  qed
qed

lemma split_colon_2:
  assumes "2 \<le> count_list s (CHR '':'')"
  shows "\<exists>a b c. split_colon 2 s = [a, b, c] \<and> s = a @ '':'' @ b @ '':'' @ c \<and>
           CHR '':'' \<notin> set a \<and> CHR '':'' \<notin> set b"
proof -
  let ?a = "takeWhile (\<lambda>c. c \<noteq> CHR '':'') s"
  let ?r = "tl (dropWhile (\<lambda>c. c \<noteq> CHR '':'') s)"
  let ?b = "takeWhile (\<lambda>c. c \<noteq> CHR '':'') ?r"
  let ?c = "tl (dropWhile (\<lambda>c. c \<noteq> CHR '':'') ?r)"
  have in1: "CHR '':'' \<in> set s"
    using assms count_no_colon[of s] by fastforce
  have "1 \<le> count_list ?r (CHR '':'')" using assms count_cut[OF in1] by simp
  then have in2: "CHR '':'' \<in> set ?r" using count_no_colon[of ?r] by fastforce
  have s: "s = ?a @ CHR '':'' # ?r" by (rule cut_at_colon[OF in1])
  have r: "?r = ?b @ CHR '':'' # ?c" by (rule cut_at_colon[OF in2])
  have "split_colon 2 s = [?a, ?b, ?c]"
    using in1 in2 by (simp add: numeral_2_eq_2)
  moreover have "s = ?a @ '':'' @ ?b @ '':'' @ ?c" using s r by simp
  ultimately show ?thesis using takeWhile_no_colon by blast
qed

lemma split_colon_few:
  assumes "count_list s (CHR '':'') < 2"
  shows "length (split_colon 2 s) < 3"
  using assms by (simp add: length_split_colon)

section \<open>One line of the file\<close>

lemma parse_line_ignored: "ignored line \<Longrightarrow> parse_line line s = Inr s"
  by (auto simp: parse_line_def ignored_def Let_def)

lemma parse_line_fields:
  assumes "\<not> ignored line" "split_colon 2 (content_of (rstrip_nl line)) = [nm, st, du]"
  shows "parse_line line s =
           attach (rstrip_nl line) (depth_of (rstrip_nl line)) (strip nm)
             (if strip st = [] then STATUS_DEFAULT else strip st) (strip du) s"
  using assms by (simp add: parse_line_def ignored_def Let_def)

lemma parse_line_invalid:
  assumes "\<not> ignored line" "length (split_colon 2 (content_of (rstrip_nl line))) \<noteq> 3"
  shows "parse_line line s = Inl (ValueError (''Invalid line: '' @ rstrip_nl line))"
proof -
  have "(case split_colon 2 (content_of (rstrip_nl line)) of
           [nm, st, du] \<Rightarrow> f nm st du | _ \<Rightarrow> e) = e" for f and e :: "error + pstate"
    using assms(2) by (auto split: list.splits)
  then show ?thesis using assms(1) by (simp add: parse_line_def ignored_def Let_def)
qed

lemma attach_error:
  "attach raw d nm st du s = Inl e \<longleftrightarrow>
     d > length (stack s) \<and> e = ValueError (''Nested too deeply: '' @ raw)"
  by (auto simp: attach_def Let_def)

lemma attach_too_deep:
  "d > length (stack s) \<Longrightarrow>
     attach raw d nm st du s = Inl (ValueError (''Nested too deeply: '' @ raw))"
  by (simp add: attach_def Let_def)

lemma attach_new_task:
  assumes "attach raw d nm st du s = Inr s'"
  shows "length (heap s') = Suc (length (heap s))"
    and "name (heap s' ! length (heap s)) = nm"
    and "status (heap s' ! length (heap s)) = st"
    and "due (heap s' ! length (heap s)) = du"
    and "depth (heap s' ! length (heap s)) = d"
proof -
  let ?t = "length (heap s)"
  let ?h1 = "heap s @ [\<lparr>name = nm, status = st, due = du, children = [], parent = None,
                          depth = d\<rparr>]"
  let ?p = "stack s ! (d - 1)"
  let ?h2 = "?h1[?t := (?h1 ! ?t)\<lparr>parent := Some ?p\<rparr>]"
  let ?h3 = "?h2[?p := (?h2 ! ?p)\<lparr>children := children (?h2 ! ?p) @ [?t]\<rparr>]"
  have h: "heap s' = ?h1 \<or> heap s' = ?h3"
    using assms by (auto simp: attach_def Let_def split: if_splits)
  have l: "length ?h3 = Suc ?t" "length ?h1 = Suc ?t" by simp_all
  have c1: "name (?h1 ! ?t) = nm \<and> status (?h1 ! ?t) = st \<and> due (?h1 ! ?t) = du \<and>
            depth (?h1 ! ?t) = d" by simp
  have c2: "name (?h2 ! ?t) = nm \<and> status (?h2 ! ?t) = st \<and> due (?h2 ! ?t) = du \<and>
            depth (?h2 ! ?t) = d" by simp
  have c3: "name (?h3 ! ?t) = nm \<and> status (?h3 ! ?t) = st \<and> due (?h3 ! ?t) = du \<and>
            depth (?h3 ! ?t) = d"
  proof (cases "?p = ?t")
    case True
    have "?h3 ! ?t = (?h2 ! ?t)\<lparr>children := children (?h2 ! ?t) @ [?t]\<rparr>"
      using True by simp
    then show ?thesis using c2 by simp
  next
    case False
    then have "?h3 ! ?t = ?h2 ! ?t" by simp
    then show ?thesis using c2 by simp
  qed
  show "length (heap s') = Suc (length (heap s))" using h l by auto
  show "name (heap s' ! length (heap s)) = nm" using h c1 c3 by auto
  show "status (heap s' ! length (heap s)) = st" using h c1 c3 by auto
  show "due (heap s' ! length (heap s)) = du" using h c1 c3 by auto
  show "depth (heap s' ! length (heap s)) = d" using h c1 c3 by auto
qed

lemma parse_lines_ignored:
  "\<forall>l\<in>set pre. ignored l \<Longrightarrow> parse_lines (pre @ ls) s = parse_lines ls s"
  by (induction pre) (simp_all add: parse_line_ignored)

lemma parse_lines_error: "parse_line l s = Inl e \<Longrightarrow> parse_lines (l # ls) s = Inl e"
  by simp

lemma parse_text_error:
  "parse_lines (readlines text) initial = Inl e \<Longrightarrow> parse_text text = Some (Inl e)"
  by (simp add: parse_text_def)

section \<open>Allocating and linking tasks\<close>

lemma wf_storeI:
  assumes "\<And>t c. t < length h \<Longrightarrow> c \<in> set (children (h ! t)) \<Longrightarrow>
              t < c \<and> c < length h \<and> parent (h ! c) = Some t"
    and "\<And>t p. t < length h \<Longrightarrow> parent (h ! t) = Some p \<Longrightarrow>
              p < t \<and> t \<in> set (children (h ! p))"
    and "\<And>r. r \<in> set rs \<Longrightarrow> r < length h \<and> parent (h ! r) = None"
    and "\<And>t. t < length h \<Longrightarrow> parent (h ! t) = None \<Longrightarrow> t \<in> set rs"
  shows "wf_store h rs"
  unfolding wf_store_def using assms by blast

lemma length_link [simp]: "length (link h p c) = Suc (length h)"
  by (simp add: link_def)

lemma link_nth_new: "p < length h \<Longrightarrow> link h p c ! length h = c"
  by (simp add: link_def)

lemma link_nth_parent:
  "p < length h \<Longrightarrow> link h p c ! p = (h ! p)\<lparr>children := children (h ! p) @ [length h]\<rparr>"
  by (simp add: link_def nth_append)

lemma link_nth_other: "u < length h \<Longrightarrow> u \<noteq> p \<Longrightarrow> link h p c ! u = h ! u"
  by (simp add: link_def nth_append)

lemma link_parent_old: "p < length h \<Longrightarrow> u < length h \<Longrightarrow> parent (link h p c ! u) = parent (h ! u)"
  by (cases "u = p") (simp_all add: link_nth_parent link_nth_other)

lemma link_depth_old: "p < length h \<Longrightarrow> u < length h \<Longrightarrow> depth (link h p c ! u) = depth (h ! u)"
  by (cases "u = p") (simp_all add: link_nth_parent link_nth_other)

lemma link_status_old: "p < length h \<Longrightarrow> u < length h \<Longrightarrow> status (link h p c ! u) = status (h ! u)"
  by (cases "u = p") (simp_all add: link_nth_parent link_nth_other)

lemma link_children_old:
  "p < length h \<Longrightarrow> u < length h \<Longrightarrow>
     children (link h p c ! u) = (if u = p then children (h ! p) @ [length h] else children (h ! u))"
  by (cases "u = p") (simp_all add: link_nth_parent link_nth_other)

lemma less_Suc_cases [consumes 1, case_names old new]: "t < Suc n \<Longrightarrow> (t < n \<Longrightarrow> P) \<Longrightarrow> (t = n \<Longrightarrow> P) \<Longrightarrow> P"
  by (auto simp: less_Suc_eq)

lemma wf_link:
  assumes w: "wf_store h rs" and p: "p < length h"
    and c: "parent c = Some p" "children c = []"
  shows "wf_store (link h p c) rs"
proof (rule wf_storeI)
  fix t x assume t: "t < length (link h p c)" and x: "x \<in> set (children (link h p c ! t))"
  from t have "t < Suc (length h)" by simp
  then show "t < x \<and> x < length (link h p c) \<and> parent (link h p c ! x) = Some t"
  proof (cases rule: less_Suc_cases)
    case old
    show ?thesis
    proof (cases "x = length h")
      case True
      then have "t = p" using x old p wf_child[OF w old, of x] by (auto simp: link_children_old split: if_splits)
      then show ?thesis using True p c by (simp add: link_nth_new)
    next
      case False
      then have "x \<in> set (children (h ! t))"
        using x old p by (auto simp: link_children_old split: if_splits)
      from wf_child[OF w old this] show ?thesis using p by (simp add: link_parent_old)
    qed
  next
    case new
    then show ?thesis using x p c by (simp add: link_nth_new)
  qed
next
  fix t q assume t: "t < length (link h p c)" and q: "parent (link h p c ! t) = Some q"
  from t have "t < Suc (length h)" by simp
  then show "q < t \<and> t \<in> set (children (link h p c ! q))"
  proof (cases rule: less_Suc_cases)
    case old
    then have "parent (h ! t) = Some q" using q p by (simp add: link_parent_old)
    from wf_parent[OF w old this] have "q < t" "t \<in> set (children (h ! q))" by simp_all
    moreover from this old have "q < length h" by simp
    ultimately show ?thesis using p by (auto simp: link_children_old)
  next
    case new
    then have "q = p" using q p c by (simp add: link_nth_new)
    then show ?thesis using new p by (simp add: link_children_old)
  qed
next
  fix r assume "r \<in> set rs"
  from wf_root[OF w this] show "r < length (link h p c) \<and> parent (link h p c ! r) = None"
    using p by (simp add: link_parent_old)
next
  fix t assume t: "t < length (link h p c)" and n: "parent (link h p c ! t) = None"
  from t have "t < Suc (length h)" by simp
  then show "t \<in> set rs"
  proof (cases rule: less_Suc_cases)
    case old
    then have "parent (h ! t) = None" using n p by (simp add: link_parent_old)
    from wf_orphan[OF w old this] show ?thesis .
  next
    case new
    then show ?thesis using n p c by (simp add: link_nth_new)
  qed
qed

lemma wf_new_root:
  assumes w: "wf_store h rs" and c: "parent c = None" "children c = []"
  shows "wf_store (h @ [c]) (rs @ [length h])"
proof (rule wf_storeI)
  fix t x assume t: "t < length (h @ [c])" and x: "x \<in> set (children ((h @ [c]) ! t))"
  from t have "t < Suc (length h)" by simp
  then show "t < x \<and> x < length (h @ [c]) \<and> parent ((h @ [c]) ! x) = Some t"
  proof (cases rule: less_Suc_cases)
    case old
    then have "x \<in> set (children (h ! t))" using x by (simp add: nth_append)
    from wf_child[OF w old this] show ?thesis by (simp add: nth_append)
  next
    case new
    then show ?thesis using x c by simp
  qed
next
  fix t q assume t: "t < length (h @ [c])" and q: "parent ((h @ [c]) ! t) = Some q"
  from t have "t < Suc (length h)" by simp
  then show "q < t \<and> t \<in> set (children ((h @ [c]) ! q))"
  proof (cases rule: less_Suc_cases)
    case old
    then have "parent (h ! t) = Some q" using q by (simp add: nth_append)
    from wf_parent[OF w old this] have "q < t" "t \<in> set (children (h ! q))" by simp_all
    moreover from this old have "q < length h" by simp
    ultimately show ?thesis by (simp add: nth_append)
  next
    case new
    then show ?thesis using q c by simp
  qed
next
  fix r assume "r \<in> set (rs @ [length h])"
  then consider "r \<in> set rs" | "r = length h" by auto
  then show "r < length (h @ [c]) \<and> parent ((h @ [c]) ! r) = None"
  proof cases
    case 1
    from wf_root[OF w this] show ?thesis by (simp add: nth_append)
  next
    case 2
    then show ?thesis using c by simp
  qed
next
  fix t assume t: "t < length (h @ [c])" and n: "parent ((h @ [c]) ! t) = None"
  from t have "t < Suc (length h)" by simp
  then show "t \<in> set (rs @ [length h])"
  proof (cases rule: less_Suc_cases)
    case old
    then have "parent (h ! t) = None" using n by (simp add: nth_append)
    from wf_orphan[OF w old this] show ?thesis by simp
  next
    case new
    then show ?thesis by simp
  qed
qed

lemma dep_okD:
  "dep_ok h \<Longrightarrow> t < length h \<Longrightarrow>
     depth (h ! t) = (case parent (h ! t) of None \<Rightarrow> 0 | Some p \<Rightarrow> Suc (depth (h ! p)))"
  unfolding dep_ok_def by blast

lemma dep_link:
  assumes d: "dep_ok h" and w: "wf_store h rs" and p: "p < length h"
    and c: "parent c = Some p" "depth c = Suc (depth (h ! p))"
  shows "dep_ok (link h p c)"
  unfolding dep_ok_def
proof (intro allI impI)
  fix t assume "t < length (link h p c)"
  then have "t < Suc (length h)" by simp
  then show "depth (link h p c ! t) =
     (case parent (link h p c ! t) of None \<Rightarrow> 0 | Some q \<Rightarrow> Suc (depth (link h p c ! q)))"
  proof (cases rule: less_Suc_cases)
    case old
    show ?thesis
    proof (cases "parent (h ! t)")
      case None
      then show ?thesis using dep_okD[OF d old] old p by (simp add: link_parent_old link_depth_old)
    next
      case (Some q)
      from wf_parent[OF w old Some] old have "q < length h" by simp
      then show ?thesis using dep_okD[OF d old] old p Some
        by (simp add: link_parent_old link_depth_old)
    qed
  next
    case new
    then show ?thesis using p c by (simp add: link_nth_new link_depth_old)
  qed
qed

lemma dep_new_root:
  assumes d: "dep_ok h" and w: "wf_store h rs" and c: "parent c = None" "depth c = 0"
  shows "dep_ok (h @ [c])"
  unfolding dep_ok_def
proof (intro allI impI)
  fix t assume "t < length (h @ [c])"
  then have "t < Suc (length h)" by simp
  then show "depth ((h @ [c]) ! t) =
     (case parent ((h @ [c]) ! t) of None \<Rightarrow> 0 | Some q \<Rightarrow> Suc (depth ((h @ [c]) ! q)))"
  proof (cases rule: less_Suc_cases)
    case old
    show ?thesis
    proof (cases "parent (h ! t)")
      case None
      then show ?thesis using dep_okD[OF d old] old by (simp add: nth_append)
    next
      case (Some q)
      from wf_parent[OF w old Some] old have "q < length h" by simp
      then show ?thesis using dep_okD[OF d old] old Some by (simp add: nth_append)
    qed
  next
    case new
    then show ?thesis using c by simp
  qed
qed

section \<open>The parser's loop\<close>

lemma attach_root:
  "attach raw 0 nm st du s =
     Inr \<lparr>heap = heap s @ [\<lparr>name = nm, status = st, due = du, children = [], parent = None,
                              depth = 0\<rparr>],
          tasks = tasks s @ [length (heap s)], stack = [length (heap s)]\<rparr>"
  by (simp add: attach_def Let_def)

lemma take_update_last: "d < length xs \<Longrightarrow> take (Suc d) (xs[d := x]) = take d xs @ [x]"
  by (simp add: take_Suc_conv_app_nth)

lemma attach_child:
  assumes "0 < d" "d \<le> length (stack s)" "stack s ! (d - 1) < length (heap s)"
  shows "attach raw d nm st du s =
     Inr \<lparr>heap = link (heap s) (stack s ! (d - 1))
                   \<lparr>name = nm, status = st, due = du, children = [],
                      parent = Some (stack s ! (d - 1)), depth = d\<rparr>,
          tasks = tasks s, stack = take d (stack s) @ [length (heap s)]\<rparr>"
proof -
  let ?p = "stack s ! (d - 1)"
  let ?t = "length (heap s)"
  let ?c0 = "\<lparr>name = nm, status = st, due = du, children = [], parent = None, depth = d\<rparr>"
  let ?c = "\<lparr>name = nm, status = st, due = du, children = [], parent = Some ?p, depth = d\<rparr>"
  let ?h1 = "heap s @ [?c0]"
  let ?h2 = "?h1[?t := (?h1 ! ?t)\<lparr>parent := Some ?p\<rparr>]"
  let ?h3 = "?h2[?p := (?h2 ! ?p)\<lparr>children := children (?h2 ! ?p) @ [?t]\<rparr>]"
  have h2: "?h2 = heap s @ [?c]" by simp
  have h3: "?h3 = link (heap s) ?p ?c" unfolding h2 by (simp add: link_def)
  have st: "(if d = length (stack s) then stack s @ [?t]
             else take (d + 1) ((stack s)[d := ?t])) = take d (stack s) @ [?t]"
    using assms(2) by (simp add: take_update_last)
  have "attach raw d nm st du s =
          Inr \<lparr>heap = ?h3, tasks = tasks s,
               stack = (if d = length (stack s) then stack s @ [?t]
                        else take (d + 1) ((stack s)[d := ?t]))\<rparr>"
    using assms(1,2) by (simp add: attach_def Let_def)
  then show ?thesis unfolding h3 st .
qed

lemma stack_okD:
  "stack_ok h st \<Longrightarrow> k < length st \<Longrightarrow> st ! k < length h \<and> depth (h ! (st ! k)) = k"
  unfolding stack_ok_def by blast

lemma pinv_initial: "pinv initial"
  by (simp add: pinv_def initial_def wf_store_def dep_ok_def stack_ok_def)

lemma pinv_attach:
  assumes i: "pinv s" and a: "attach raw d nm st du s = Inr s'"
  shows "pinv s'"
proof -
  note w = i[unfolded pinv_def, THEN conjunct1]
  note dp = i[unfolded pinv_def, THEN conjunct2, THEN conjunct1]
  note so = i[unfolded pinv_def, THEN conjunct2, THEN conjunct2]
  let ?t = "length (heap s)"
  show ?thesis
  proof (cases "d = 0")
    case True
    let ?c = "\<lparr>name = nm, status = st, due = du, children = [], parent = None, depth = 0\<rparr>"
    have s': "s' = \<lparr>heap = heap s @ [?c], tasks = tasks s @ [?t], stack = [?t]\<rparr>"
      using a True attach_root[of raw nm st du s] by simp
    have 1: "wf_store (heap s') (tasks s')"
      unfolding s' using wf_new_root[OF w, of ?c] by simp
    have 2: "dep_ok (heap s')"
      unfolding s' using dep_new_root[OF dp w, of ?c] by simp
    have 3: "stack_ok (heap s') (stack s')"
      unfolding s' by (simp add: stack_ok_def)
    show ?thesis unfolding pinv_def using 1 2 3 by blast
  next
    case False
    then have d: "0 < d" by simp
    have le: "d \<le> length (stack s)"
      using a False by (cases "d \<le> length (stack s)") (simp_all add: attach_def)
    let ?p = "stack s ! (d - 1)"
    let ?c = "\<lparr>name = nm, status = st, due = du, children = [], parent = Some ?p, depth = d\<rparr>"
    have k: "d - 1 < length (stack s)" using d le by simp
    from stack_okD[OF so k] have p: "?p < ?t" and pd: "depth (heap s ! ?p) = d - 1"
      by simp_all
    have s': "s' = \<lparr>heap = link (heap s) ?p ?c, tasks = tasks s,
                     stack = take d (stack s) @ [?t]\<rparr>"
      using a attach_child[OF d le p, of raw nm st du] by simp
    have 1: "wf_store (heap s') (tasks s')"
      unfolding s' using wf_link[OF w p, of ?c] by simp
    have 2: "dep_ok (heap s')"
      unfolding s' using dep_link[OF dp w p, of ?c] pd d by simp
    have 3: "stack_ok (heap s') (stack s')"
      unfolding stack_ok_def
    proof (intro allI impI)
      fix k assume "k < length (stack s')"
      then have kk: "k < Suc d" using le unfolding s' by simp
      then show "stack s' ! k < length (heap s') \<and> depth (heap s' ! (stack s' ! k)) = k"
      proof (cases rule: less_Suc_cases)
        case old
        then have kl: "k < length (stack s)" using le by simp
        have e: "stack s' ! k = stack s ! k"
          unfolding s' using old le by (simp add: nth_append)
        from stack_okD[OF so kl] have "stack s ! k < ?t" "depth (heap s ! (stack s ! k)) = k"
          by simp_all
        then show ?thesis unfolding e unfolding s' using p by (simp add: link_depth_old)
      next
        case new
        have e: "stack s' ! k = ?t"
          unfolding s' using new le by (simp add: nth_append)
        show ?thesis unfolding e unfolding s' using p new by (simp add: link_nth_new)
      qed
    qed
    show ?thesis unfolding pinv_def using 1 2 3 by blast
  qed
qed

lemma pinv_parse_line:
  assumes "pinv s" "parse_line line s = Inr s'"
  shows "pinv s'"
proof (cases "ignored line")
  case True
  then show ?thesis using assms parse_line_ignored by simp
next
  case False
  show ?thesis
  proof (cases "length (split_colon 2 (content_of (rstrip_nl line))) = 3")
    case True
    then obtain nm st du where "split_colon 2 (content_of (rstrip_nl line)) = [nm, st, du]"
      by (auto simp: length_Suc_conv numeral_3_eq_3)
    from parse_line_fields[OF False this, of s] assms(2) pinv_attach[OF assms(1)]
    show ?thesis by simp
  next
    case False2: False
    from parse_line_invalid[OF False False2, of s] assms(2) show ?thesis by simp
  qed
qed

lemma pinv_parse_lines:
  "pinv s \<Longrightarrow> parse_lines ls s = Inr s' \<Longrightarrow> pinv s'"
proof (induction ls arbitrary: s)
  case Nil
  then show ?case by simp
next
  case (Cons l ls)
  then show ?case by (auto split: sum.splits dest: pinv_parse_line)
qed

section \<open>Pre-order traversals\<close>

lemma trav_hd: "trav h t xs \<Longrightarrow> \<exists>ys. xs = t # ys \<and> travs h (children (h ! t)) ys"
  by (auto elim: trav.cases)

lemma travs_Nil_iff: "travs h [] xs \<longleftrightarrow> xs = []"
  by (auto elim: travs.cases intro: trav_travs.nil)

lemma travs_ConsE:
  assumes "travs h (c # cs) zs"
  obtains xs ys where "zs = xs @ ys" "trav h c xs" "travs h cs ys"
  using assms by (auto elim: travs.cases)

lemma travs_empty: "travs h cs [] \<Longrightarrow> cs = []"
proof (cases cs)
  case Nil
  then show ?thesis by simp
next
  case (Cons c cs')
  assume "travs h cs []"
  then obtain xs ys where "[] = xs @ ys" "trav h c xs"
    unfolding Cons by (auto elim: travs_ConsE)
  then show ?thesis using trav_hd by fastforce
qed

lemma trav_det_aux:
  "(trav h t xs \<longrightarrow> (\<forall>ys. trav h t ys \<longrightarrow> ys = xs)) \<and>
   (travs h ts xs \<longrightarrow> (\<forall>ys. travs h ts ys \<longrightarrow> ys = xs))"
proof (induct rule: trav_travs.induct)
  case (node t xs)
  then show ?case using trav_hd by blast
next
  case nil
  then show ?case by (simp add: travs_Nil_iff)
next
  case (cons c xs cs ys)
  show ?case
  proof (intro allI impI)
    fix zs assume "travs h (c # cs) zs"
    then obtain xs' ys' where "zs = xs' @ ys'" "trav h c xs'" "travs h cs ys'"
      by (rule travs_ConsE)
    then show "zs = xs @ ys" using cons.hyps by blast
  qed
qed

lemma trav_det: "trav h t xs \<Longrightarrow> trav h t ys \<Longrightarrow> ys = xs"
  using trav_det_aux by blast

lemma travs_det: "travs h ts xs \<Longrightarrow> travs h ts ys \<Longrightarrow> ys = xs"
  using trav_det_aux by blast

lemma trav_frame_aux:
  "(trav h t xs \<longrightarrow> (\<forall>u\<in>set xs. children (h' ! u) = children (h ! u)) \<longrightarrow> trav h' t xs) \<and>
   (travs h ts xs \<longrightarrow> (\<forall>u\<in>set xs. children (h' ! u) = children (h ! u)) \<longrightarrow> travs h' ts xs)"
proof (induct rule: trav_travs.induct)
  case (node t xs)
  show ?case
  proof (intro impI)
    assume a: "\<forall>u\<in>set (t # xs). children (h' ! u) = children (h ! u)"
    then have "travs h' (children (h ! t)) xs" using node.hyps by simp
    then have "travs h' (children (h' ! t)) xs" using a by simp
    then show "trav h' t (t # xs)" by (rule trav_travs.node)
  qed
next
  case nil
  then show ?case by (simp add: trav_travs.nil)
next
  case (cons c xs cs ys)
  then show ?case by (simp add: trav_travs.cons)
qed

lemma trav_frame:
  "trav h t xs \<Longrightarrow> (\<And>u. u \<in> set xs \<Longrightarrow> children (h' ! u) = children (h ! u)) \<Longrightarrow>
     trav h' t xs"
  using trav_frame_aux by blast

lemma travs_frame:
  "travs h ts xs \<Longrightarrow> (\<And>u. u \<in> set xs \<Longrightarrow> children (h' ! u) = children (h ! u)) \<Longrightarrow>
     travs h' ts xs"
  using trav_frame_aux by blast

lemma trav_sub_aux:
  "(trav h t xs \<longrightarrow> (\<forall>u\<in>set xs. \<forall>ys. trav h u ys \<longrightarrow> set ys \<subseteq> set xs)) \<and>
   (travs h ts xs \<longrightarrow> (\<forall>u\<in>set xs. \<forall>ys. trav h u ys \<longrightarrow> set ys \<subseteq> set xs))"
proof (induct rule: trav_travs.induct)
  case (node t xs)
  show ?case
  proof (intro ballI allI impI)
    fix u ys assume u: "u \<in> set (t # xs)" and y: "trav h u ys"
    show "set ys \<subseteq> set (t # xs)"
    proof (cases "u = t")
      case True
      have "trav h t (t # xs)" using node.hyps(1) by (rule trav_travs.node)
      then have "ys = t # xs" using y True trav_det by blast
      then show ?thesis by simp
    next
      case False
      then have "u \<in> set xs" using u by simp
      then have "set ys \<subseteq> set xs" using node.hyps y by blast
      then show ?thesis by auto
    qed
  qed
next
  case nil
  then show ?case by simp
next
  case (cons c xs cs ys)
  then show ?case by fastforce
qed

lemma trav_sub:
  "trav h t xs \<Longrightarrow> u \<in> set xs \<Longrightarrow> trav h u ys \<Longrightarrow> set ys \<subseteq> set xs"
  using trav_sub_aux by blast

lemma travs_append:
  "travs h as xs \<Longrightarrow> travs h bs ys \<Longrightarrow> travs h (as @ bs) (xs @ ys)"
proof (induction as arbitrary: xs)
  case Nil
  then show ?case by (simp add: travs_Nil_iff)
next
  case (Cons a as)
  from Cons.prems(1) obtain x1 x2 where x: "xs = x1 @ x2" "trav h a x1" "travs h as x2"
    by (rule travs_ConsE)
  from Cons.IH[OF x(3) Cons.prems(2)] have "travs h (as @ bs) (x2 @ ys)" .
  from trav_travs.cons[OF x(2) this] show ?case using x(1) by simp
qed

lemma trav_leaf: "children (h ! t) = [] \<Longrightarrow> trav h t [t]"
  using trav_travs.node[of h t "[]"] by (simp add: trav_travs.nil)

lemma travs_single: "trav h t xs \<Longrightarrow> travs h [t] xs"
  using trav_travs.cons[of h t xs "[]" "[]"] by (simp add: trav_travs.nil)

section \<open>Traversals and the flattening walk\<close>

lemma for_each_flatten_aux:
  assumes "\<And>c xs acc. c \<in> set cs \<Longrightarrow> trav h c xs \<Longrightarrow> length xs \<le> f \<Longrightarrow>
             flatten_walk f h acc c = Some (acc @ xs)"
  shows "travs h cs ys \<Longrightarrow> length ys \<le> f \<Longrightarrow>
           for_each (flatten_walk f h) acc cs = Some (acc @ ys)"
  using assms
proof (induction cs arbitrary: ys acc)
  case Nil
  then show ?case by (simp add: travs_Nil_iff)
next
  case (Cons c cs)
  from Cons.prems(1) obtain x1 x2 where x: "ys = x1 @ x2" "trav h c x1" "travs h cs x2"
    by (rule travs_ConsE)
  have l: "length x1 \<le> f" "length x2 \<le> f" using x(1) Cons.prems(2) by simp_all
  have 1: "flatten_walk f h acc c = Some (acc @ x1)"
    using Cons.prems(3)[of c x1 acc] x(2) l(1) by simp
  have 2: "for_each (flatten_walk f h) (acc @ x1) cs = Some ((acc @ x1) @ x2)"
    using Cons.IH[OF x(3) l(2)] Cons.prems(3) by simp
  show ?case using 1 2 x(1) by simp
qed

lemma trav_flatten_walk:
  "trav h t xs \<Longrightarrow> length xs \<le> f \<Longrightarrow> flatten_walk f h acc t = Some (acc @ xs)"
proof (induction f arbitrary: t xs acc)
  case 0
  then show ?case using trav_hd by fastforce
next
  case (Suc f)
  from trav_hd[OF Suc.prems(1)] obtain ys where
    ys: "xs = t # ys" "travs h (children (h ! t)) ys" by blast
  then have l: "length ys \<le> f" using Suc.prems(2) by simp
  have "for_each (flatten_walk f h) (acc @ [t]) (children (h ! t)) = Some ((acc @ [t]) @ ys)"
    using for_each_flatten_aux[OF _ ys(2) l] Suc.IH by blast
  then show ?case using ys(1) by simp
qed

lemma travs_flatten_walk:
  "travs h ts xs \<Longrightarrow> length xs \<le> f \<Longrightarrow>
     for_each (flatten_walk f h) acc ts = Some (acc @ xs)"
  using for_each_flatten_aux[of ts h f xs acc] trav_flatten_walk by blast

section \<open>Intervals of references\<close>

lemma upt_eq_upt: "[a..<b] = [a..<c] \<Longrightarrow> a < c \<Longrightarrow> b = c"
proof -
  assume e: "[a..<b] = [a..<c]" and "a < c"
  then have "length [a..<b] = length [a..<c]" by simp
  then show "b = c" using \<open>a < c\<close> by simp
qed

lemma upt_split:
  assumes "[a..<b] = [c..<e] @ xs" "c < e"
  shows "a = c \<and> e \<le> b \<and> xs = [e..<b]"
proof -
  have ne: "[a..<b] \<noteq> []" using assms by auto
  then have ab: "a < b" by simp
  have "hd [a..<b] = hd ([c..<e] @ xs)" using assms(1) by simp
  then have ac: "a = c" using ab assms(2) by (simp add: upt_conv_Cons)
  have "length [a..<b] = length ([c..<e] @ xs)" using assms(1) by simp
  then have eb: "e \<le> b" using ac assms(2) by simp
  have "[a..<b] = [c..<e] @ [e..<b]"
    using ac eb assms(2) by (metis le_add_diff_inverse less_imp_le_nat upt_add_eq_append)
  then have "xs = [e..<b]" using assms(1) by simp
  then show ?thesis using ac eb by simp
qed

lemma upt_snoc: "a \<le> b \<Longrightarrow> [a..<b] @ [b] = [a..<Suc b]"
  by simp

lemma upt_join: "a \<le> e \<Longrightarrow> e \<le> b \<Longrightarrow> [a..<e] @ [e..<b] = [a..<b]"
  by (metis le_add_diff_inverse upt_add_eq_append)

section \<open>Linking a task at the end of a pre-order store\<close>

lemma link_children_new: "p < length h \<Longrightarrow> children (link h p c ! length h) = children c"
  by (simp add: link_nth_new)

lemma trav_link_frame:
  assumes "trav h t xs" "p < length h" "\<forall>u\<in>set xs. u < length h \<and> u \<noteq> p"
  shows "trav (link h p c) t xs"
proof (rule trav_frame[OF assms(1)])
  fix u assume "u \<in> set xs"
  then have "u < length h" "u \<noteq> p" using assms(3) by simp_all
  then show "children (link h p c ! u) = children (h ! u)"
    using assms(2) by (simp add: link_children_old)
qed

lemma travs_link_frame:
  assumes "travs h ts xs" "p < length h" "\<forall>u\<in>set xs. u < length h \<and> u \<noteq> p"
  shows "travs (link h p c) ts xs"
proof (rule travs_frame[OF assms(1)])
  fix u assume "u \<in> set xs"
  then have "u < length h" "u \<noteq> p" using assms(3) by simp_all
  then show "children (link h p c ! u) = children (h ! u)"
    using assms(2) by (simp add: link_children_old)
qed

lemma interval_end:
  assumes I: "\<forall>t<length h. \<exists>e. t < e \<and> e \<le> length h \<and> trav h t [t..<e]"
    and "t < length h" "trav h t [t..<e]"
  shows "t < e \<and> e \<le> length h"
proof -
  from I assms(2) obtain e' where e': "t < e'" "e' \<le> length h" "trav h t [t..<e']" by blast
  have "[t..<e] = [t..<e']" using trav_det[OF e'(3) assms(3)] .
  then have "e = e'" using e'(1) by (rule upt_eq_upt)
  then show ?thesis using e' by simp
qed

lemma interval_reaches_end:
  assumes I: "\<forall>t<length h. \<exists>e. t < e \<and> e \<le> length h \<and> trav h t [t..<e]"
    and t: "t < length h" "trav h t [t..<e]"
    and p: "p < length h" "trav h p [p..<length h]" "p \<in> {t..<e}"
  shows "e = length h"
proof -
  have "set [p..<length h] \<subseteq> set [t..<e]"
    using trav_sub[OF t(2) _ p(2)] p(3) by simp
  moreover have "length h - 1 \<in> set [p..<length h]" using p(1) by auto
  ultimately have "length h - 1 < e" by auto
  then show ?thesis using interval_end[OF I t] p(1) by linarith
qed

lemma travs_link_extend:
  assumes I: "\<forall>t<length h. \<exists>e. t < e \<and> e \<le> length h \<and> trav h t [t..<e]"
    and p: "p < length h" "trav h p [p..<length h]"
    and ih: "\<And>c e. c \<in> set cs \<Longrightarrow> trav h c [c..<e] \<Longrightarrow>
               trav (link h p x) c [c..<(if p \<in> {c..<e} then Suc (length h) else e)]"
    and cs: "\<forall>c\<in>set cs. c < length h"
  shows "travs h cs [a..<b] \<Longrightarrow> b \<le> length h \<Longrightarrow>
           travs (link h p x) cs [a..<(if p \<in> {a..<b} then Suc (length h) else b)]"
  using ih cs
proof (induction cs arbitrary: a)
  case Nil
  then have "[a..<b] = []" by (simp add: travs_Nil_iff)
  then have "p \<notin> {a..<b}" by auto
  then have "travs (link h p x) [] [a..<(if p \<in> {a..<b} then Suc (length h) else b)]"
    using \<open>[a..<b] = []\<close> by (simp only: if_False travs_Nil_iff)
  then show ?case .
next
  case (Cons c cs)
  let ?h' = "link h p x"
  from Cons.prems(1) obtain x1 x2 where x: "[a..<b] = x1 @ x2" "trav h c x1" "travs h cs x2"
    by (rule travs_ConsE)
  have cl: "c < length h" using Cons.prems(4) by simp
  from I cl obtain e where e: "c < e" "e \<le> length h" "trav h c [c..<e]" by blast
  have x1: "x1 = [c..<e]" using trav_det[OF e(3) x(2)] .
  from upt_split[OF x(1)[unfolded x1] e(1)] have s: "a = c" "e \<le> b" "x2 = [e..<b]" by simp_all
  have ihc: "trav ?h' c [c..<(if p \<in> {c..<e} then Suc (length h) else e)]"
    using Cons.prems(3)[of c e] e(3) by simp
  show ?case
  proof (cases "p \<in> {c..<e}")
    case True
    have en: "e = length h" by (rule interval_reaches_end[OF I cl e(3) p True])
    then have bn: "b = length h" using s(2) Cons.prems(2) by simp
    then have "x2 = []" using s(3) en by simp
    then have "cs = []" using x(3) travs_empty by blast
    moreover have "trav ?h' c [c..<Suc (length h)]" using ihc True by simp
    ultimately have "travs ?h' (c # cs) [c..<Suc (length h)]" using travs_single by simp
    moreover have "p \<in> {a..<b}" using True s(1) en bn by simp
    ultimately show ?thesis using s(1) by simp
  next
    case False
    have 1: "trav ?h' c [c..<e]" using ihc by (simp only: False if_False)
    have 2: "travs ?h' cs [e..<(if p \<in> {e..<b} then Suc (length h) else b)]"
      using Cons.IH[OF x(3)[unfolded s(3)] Cons.prems(2)] Cons.prems(3,4) by simp
    let ?b' = "if p \<in> {e..<b} then Suc (length h) else b"
    have eb': "e \<le> ?b'" using s(2) e(2) by simp
    have "travs ?h' (c # cs) ([c..<e] @ [e..<?b'])" by (rule trav_travs.cons[OF 1 2])
    then have "travs ?h' (c # cs) [c..<?b']" using upt_join[of c e ?b'] e(1) eb' by simp
    moreover have "(p \<in> {a..<b}) = (p \<in> {e..<b})" using False s(1) e(1) s(2) by auto
    ultimately show ?thesis using s(1) by simp
  qed
qed

lemma trav_link_extend:
  assumes I: "\<forall>t<length h. \<exists>e. t < e \<and> e \<le> length h \<and> trav h t [t..<e]"
    and w: "wf_store h rs"
    and p: "p < length h" "trav h p [p..<length h]"
    and x: "children x = []"
  shows "t < length h \<Longrightarrow> trav h t [t..<e] \<Longrightarrow>
           trav (link h p x) t [t..<(if p \<in> {t..<e} then Suc (length h) else e)]"
proof (induction "length h - t" arbitrary: t e rule: less_induct)
  case less
  let ?n = "length h"
  let ?h' = "link h p x"
  note te = interval_end[OF I less.prems]
  show ?case
  proof (cases "p \<in> {t..<e}")
    case False
    have "\<forall>u\<in>set [t..<e]. u < ?n \<and> u \<noteq> p" using False te by auto
    from trav_link_frame[OF less.prems(2) p(1) this] have "trav ?h' t [t..<e]" .
    then show ?thesis using False by (simp only: if_False)
  next
    case True
    have en: "e = ?n" by (rule interval_reaches_end[OF I less.prems p True])
    from trav_hd[OF less.prems(2)] obtain ys where
      ys: "[t..<e] = t # ys" "travs h (children (h ! t)) ys" by blast
    have ys': "ys = [Suc t..<?n]" using ys(1) te en by (simp add: upt_conv_Cons)
    have new: "trav ?h' ?n [?n]"
      by (rule trav_leaf) (simp add: link_children_new[OF p(1)] x)
    have "travs ?h' (children (?h' ! t)) [Suc t..<Suc ?n]"
    proof (cases "t = p")
      case True
      have "\<forall>u\<in>set [Suc p..<?n]. u < ?n \<and> u \<noteq> p" by auto
      from travs_link_frame[OF ys(2)[unfolded ys' True] p(1) this]
      have "travs ?h' (children (h ! p)) [Suc p..<?n]" .
      from travs_append[OF this travs_single[OF new]]
      have "travs ?h' (children (h ! p) @ [?n]) ([Suc p..<?n] @ [?n])" .
      then show ?thesis using True p(1) by (simp add: link_children_old)
    next
      case False
      have ch: "children (?h' ! t) = children (h ! t)"
        using False less.prems(1) p(1) by (simp add: link_children_old)
      have cs: "\<forall>c\<in>set (children (h ! t)). c < ?n"
        using wf_child[OF w less.prems(1)] by blast
      have ih: "trav ?h' c [c..<(if p \<in> {c..<e'} then Suc ?n else e')]"
        if "c \<in> set (children (h ! t))" "trav h c [c..<e']" for c e'
      proof -
        from wf_child[OF w less.prems(1) that(1)] have c: "t < c" "c < ?n" by simp_all
        then have "?n - c < ?n - t" by simp
        from less.hyps[OF this c(2) that(2)] show ?thesis .
      qed
      have pin: "p \<in> {Suc t..<?n}" using True False en by auto
      from travs_link_extend[OF I p ih cs ys(2)[unfolded ys']]
      show ?thesis unfolding ch using pin by simp
    qed
    from trav_travs.node[OF this] have "trav ?h' t (t # [Suc t..<Suc ?n])" .
    then have "trav ?h' t [t..<Suc ?n]" using less.prems(1) by (simp add: upt_conv_Cons)
    then show ?thesis using True by simp
  qed
qed

section \<open>The parser allocates in pre-order\<close>

lemma cinvD:
  assumes "cinv s"
  shows "pinv s"
    and "\<forall>t<length (heap s). \<exists>e. t < e \<and> e \<le> length (heap s) \<and> trav (heap s) t [t..<e]"
    and "travs (heap s) (tasks s) [0..<length (heap s)]"
    and "\<And>k. k < length (stack s) \<Longrightarrow>
           trav (heap s) (stack s ! k) [stack s ! k..<length (heap s)]"
    and "sorted (stack s)"
  using assms unfolding cinv_def by blast+

lemma pinvD:
  assumes "pinv s"
  shows "wf_store (heap s) (tasks s)" "dep_ok (heap s)" "stack_ok (heap s) (stack s)"
  using assms unfolding pinv_def by blast+

lemma cinv_initial: "cinv initial"
  unfolding cinv_def using pinv_initial by (simp add: initial_def trav_travs.nil)

lemma trav_append_frame:
  assumes "trav h t xs" "\<forall>u\<in>set xs. u < length h"
  shows "trav (h @ [c]) t xs"
proof (rule trav_frame[OF assms(1)])
  fix u assume "u \<in> set xs"
  then have "u < length h" using assms(2) by simp
  then show "children ((h @ [c]) ! u) = children (h ! u)" by (simp add: nth_append)
qed

lemma travs_append_frame:
  assumes "travs h ts xs" "\<forall>u\<in>set xs. u < length h"
  shows "travs (h @ [c]) ts xs"
proof (rule travs_frame[OF assms(1)])
  fix u assume "u \<in> set xs"
  then have "u < length h" using assms(2) by simp
  then show "children ((h @ [c]) ! u) = children (h ! u)" by (simp add: nth_append)
qed

lemma cinv_attach_root:
  assumes i: "cinv s" and a: "attach raw 0 nm st du s = Inr s'"
  shows "cinv s'"
proof -
  let ?n = "length (heap s)"
  let ?c = "\<lparr>name = nm, status = st, due = du, children = [], parent = None, depth = 0\<rparr>"
  let ?h' = "heap s @ [?c]"
  note I = cinvD(2)[OF i]
  have s': "s' = \<lparr>heap = ?h', tasks = tasks s @ [?n], stack = [?n]\<rparr>"
    using a attach_root[of raw nm st du s] by simp
  have new: "trav ?h' ?n [?n]" by (rule trav_leaf) simp
  have hs: "heap s' = ?h'" "tasks s' = tasks s @ [?n]" "stack s' = [?n]"
    and len: "length (heap s') = Suc ?n" "length (stack s') = Suc 0"
    unfolding s' by simp_all
  have 1: "pinv s'" by (rule pinv_attach[OF cinvD(1)[OF i] a])
  have 2: "\<forall>t<Suc ?n. \<exists>e. t < e \<and> e \<le> Suc ?n \<and> trav ?h' t [t..<e]"
  proof (intro allI impI)
  fix t assume "t < Suc ?n"
  then show "\<exists>e. t < e \<and> e \<le> Suc ?n \<and> trav ?h' t [t..<e]"
  proof (cases rule: less_Suc_cases)
    case old
    from I old obtain e where e: "t < e" "e \<le> ?n" "trav (heap s) t [t..<e]" by blast
    have "\<forall>u\<in>set [t..<e]. u < ?n" using e(2) by auto
    from trav_append_frame[OF e(3) this] e(1,2) show ?thesis by auto
  next
    case new
    then show ?thesis using \<open>trav ?h' ?n [?n]\<close> by auto
  qed
  qed
  have "travs ?h' (tasks s) [0..<?n]"
    by (rule travs_append_frame[OF cinvD(3)[OF i]]) simp
  from travs_append[OF this travs_single[OF new]]
  have 3: "travs ?h' (tasks s @ [?n]) [0..<Suc ?n]" by simp
  have 4: "\<forall>k<Suc 0. trav ?h' ([?n] ! k) [[?n] ! k..<Suc ?n]" using new by simp
  have 5: "sorted [?n]" by simp
  show ?thesis
    unfolding cinv_def len unfolding hs by (intro conjI 1 2 3 4 5)
qed

lemma cinv_attach_child:
  assumes i: "cinv s" and d: "0 < d" and a: "attach raw d nm st du s = Inr s'"
  shows "cinv s'"
proof -
  let ?n = "length (heap s)"
  let ?p = "stack s ! (d - 1)"
  let ?c = "\<lparr>name = nm, status = st, due = du, children = [], parent = Some ?p, depth = d\<rparr>"
  let ?h' = "link (heap s) ?p ?c"
  note I = cinvD(2)[OF i]
  note pi = cinvD(1)[OF i]
  note w = pinvD(1)[OF pi]
  note so = pinvD(3)[OF pi]
  have le: "d \<le> length (stack s)"
    using a d by (cases "d \<le> length (stack s)") (simp_all add: attach_def)
  have k: "d - 1 < length (stack s)" using d le by simp
  from stack_okD[OF so k] have p: "?p < ?n" by simp
  have tp: "trav (heap s) ?p [?p..<?n]" by (rule cinvD(4)[OF i k])
  have s': "s' = \<lparr>heap = ?h', tasks = tasks s, stack = take d (stack s) @ [?n]\<rparr>"
    using a attach_child[OF d le p, of raw nm st du] by simp
  have cx: "children ?c = []" by simp
  note ext = trav_link_extend[OF I w p tp cx]
  have "children (?h' ! ?n) = []" using link_children_new[OF p, of ?c] by simp
  then have new: "trav ?h' ?n [?n]" by (rule trav_leaf)
  have hs: "heap s' = ?h'" "tasks s' = tasks s" "stack s' = take d (stack s) @ [?n]"
    and len: "length (heap s') = Suc ?n" "length (stack s') = Suc d"
    unfolding s' using le by simp_all
  have 1: "pinv s'" by (rule pinv_attach[OF pi a])
  have 2: "\<forall>t<Suc ?n. \<exists>e. t < e \<and> e \<le> Suc ?n \<and> trav ?h' t [t..<e]"
  proof (intro allI impI)
  fix t assume "t < Suc ?n"
  then show "\<exists>e. t < e \<and> e \<le> Suc ?n \<and> trav ?h' t [t..<e]"
  proof (cases rule: less_Suc_cases)
    case old
    from I old obtain e where e: "t < e" "e \<le> ?n" "trav (heap s) t [t..<e]" by blast
    let ?e' = "if ?p \<in> {t..<e} then Suc ?n else e"
    have "trav ?h' t [t..<?e']" by (rule ext[OF old e(3)])
    moreover have "t < ?e'" "?e' \<le> Suc ?n" using e(1,2) old by simp_all
    ultimately show ?thesis by blast
  next
    case new
    then show ?thesis using \<open>trav ?h' ?n [?n]\<close> by auto
  qed
  qed
  have rs: "\<forall>r\<in>set (tasks s). r < ?n" using wf_root[OF w] by blast
  have ihr: "trav ?h' c [c..<(if ?p \<in> {c..<e} then Suc ?n else e)]"
    if "c \<in> set (tasks s)" "trav (heap s) c [c..<e]" for c e
    using ext[OF _ that(2)] rs that(1) by blast
  have "travs ?h' (tasks s) [0..<(if ?p \<in> {0..<?n} then Suc ?n else ?n)]"
    by (rule travs_link_extend[OF I p tp ihr rs cinvD(3)[OF i]]) simp_all
  then have 3: "travs ?h' (tasks s) [0..<Suc ?n]" using p by simp
  have 4: "\<forall>j<Suc d. trav ?h' ((take d (stack s) @ [?n]) ! j)
             [(take d (stack s) @ [?n]) ! j..<Suc ?n]"
  proof (intro allI impI)
  fix j assume "j < Suc d"
  then show "trav ?h' ((take d (stack s) @ [?n]) ! j) [(take d (stack s) @ [?n]) ! j..<Suc ?n]"
  proof (cases rule: less_Suc_cases)
    case old
    then have jl: "j < length (stack s)" using le by simp
    have e: "(take d (stack s) @ [?n]) ! j = stack s ! j"
      using old le by (simp add: nth_append)
    have q: "stack s ! j < ?n" using stack_okD[OF so jl] by simp
    have "stack s ! j \<le> ?p"
      using cinvD(5)[OF i] old k by (simp add: sorted_iff_nth_mono)
    then have pin: "?p \<in> {stack s ! j..<?n}" using p by simp
    from ext[OF q cinvD(4)[OF i jl]] show ?thesis unfolding e using pin by simp
  next
    case new
    have e: "(take d (stack s) @ [?n]) ! j = ?n"
      using new le by (simp add: nth_append)
    show ?thesis unfolding e using \<open>trav ?h' ?n [?n]\<close> by simp
  qed
  qed
  have "\<forall>x\<in>set (take d (stack s)). x \<le> ?n"
  proof
    fix x assume "x \<in> set (take d (stack s))"
    then have "x \<in> set (stack s)" by (rule in_set_takeD)
    then obtain j where "j < length (stack s)" "stack s ! j = x"
      by (auto simp: in_set_conv_nth)
    then show "x \<le> ?n" using stack_okD[OF so, of j] by auto
  qed
  then have 5: "sorted (take d (stack s) @ [?n])"
    using cinvD(5)[OF i] by (simp add: sorted_append sorted_wrt_take)
  show ?thesis
    unfolding cinv_def len unfolding hs by (intro conjI 1 2 3 4 5)
qed

lemma cinv_attach:
  "cinv s \<Longrightarrow> attach raw d nm st du s = Inr s' \<Longrightarrow> cinv s'"
proof (cases "d = 0")
  case True
  assume "cinv s" "attach raw d nm st du s = Inr s'"
  then show ?thesis using cinv_attach_root[of s raw nm st du s'] True by simp
next
  case False
  assume "cinv s" "attach raw d nm st du s = Inr s'"
  then show ?thesis using cinv_attach_child[of s d raw nm st du s'] False by simp
qed

lemma cinv_parse_line:
  assumes "cinv s" "parse_line line s = Inr s'"
  shows "cinv s'"
proof (cases "ignored line")
  case True
  then show ?thesis using assms parse_line_ignored by simp
next
  case False
  show ?thesis
  proof (cases "length (split_colon 2 (content_of (rstrip_nl line))) = 3")
    case True
    then obtain nm st du where "split_colon 2 (content_of (rstrip_nl line)) = [nm, st, du]"
      by (auto simp: length_Suc_conv numeral_3_eq_3)
    from parse_line_fields[OF False this, of s] assms(2) cinv_attach[OF assms(1)]
    show ?thesis by simp
  next
    case False2: False
    from parse_line_invalid[OF False False2, of s] assms(2) show ?thesis by simp
  qed
qed

lemma cinv_parse_lines:
  "cinv s \<Longrightarrow> parse_lines ls s = Inr s' \<Longrightarrow> cinv s'"
proof (induction ls arbitrary: s)
  case Nil
  then show ?case by simp
next
  case (Cons l ls)
  then show ?case by (auto split: sum.splits dest: cinv_parse_line)
qed

section \<open>The walk of the parser\<close>

lemma trav_self: "trav h t xs \<Longrightarrow> t \<in> set xs"
  using trav_hd by fastforce

lemma travs_roots_subset: "travs h ts xs \<Longrightarrow> set ts \<subseteq> set xs"
proof (induction ts arbitrary: xs)
  case Nil
  then show ?case by simp
next
  case (Cons c cs)
  from Cons.prems obtain x1 x2 where x: "xs = x1 @ x2" "trav h c x1" "travs h cs x2"
    by (rule travs_ConsE)
  from Cons.IH[OF x(3)] trav_self[OF x(2)] show ?case unfolding x(1) by auto
qed

lemma trav_closed_aux:
  "(trav h t xs \<longrightarrow> (\<forall>u\<in>set xs. set (children (h ! u)) \<subseteq> set xs)) \<and>
   (travs h ts xs \<longrightarrow> (\<forall>u\<in>set xs. set (children (h ! u)) \<subseteq> set xs))"
proof (induct rule: trav_travs.induct)
  case (node t xs)
  have "set (children (h ! t)) \<subseteq> set xs" by (rule travs_roots_subset[OF node.hyps(1)])
  then show ?case using node.hyps(2) by auto
next
  case nil
  then show ?case by simp
next
  case (cons c xs cs ys)
  then show ?case by auto
qed

lemma trav_closed: "trav h t xs \<Longrightarrow> u \<in> set xs \<Longrightarrow> c \<in> set (children (h ! u)) \<Longrightarrow> c \<in> set xs"
  using trav_closed_aux by blast

lemma travs_closed: "travs h ts xs \<Longrightarrow> u \<in> set xs \<Longrightarrow> c \<in> set (children (h ! u)) \<Longrightarrow> c \<in> set xs"
  using trav_closed_aux by blast

lemma ok_cong:
  assumes "g' ! u = g ! u" "\<And>c. c \<in> set (children (g ! u)) \<Longrightarrow> g' ! c = g ! c"
  shows "ok g' u = ok g u"
proof -
  have "child_statuses g' u = child_statuses g u"
    unfolding child_statuses_def using assms by simp
  then show ?thesis unfolding ok_def using assms(1) by simp
qed

lemma walkedI:
  assumes "map shape g' = map shape h"
    and "\<And>u. u \<notin> set xs \<Longrightarrow> g' ! u = g ! u"
    and "\<And>u. u \<in> set xs \<Longrightarrow> children (h ! u) = [] \<Longrightarrow> g' ! u = g ! u"
    and "\<And>u. u \<in> set xs \<Longrightarrow> ok g' u"
  shows "walked h xs g g'"
  unfolding walked_def using assms by blast

lemma walkedD:
  assumes "walked h xs g g'"
  shows "map shape g' = map shape h"
    and "\<And>u. u \<notin> set xs \<Longrightarrow> g' ! u = g ! u"
    and "\<And>u. u \<in> set xs \<Longrightarrow> children (h ! u) = [] \<Longrightarrow> g' ! u = g ! u"
    and "\<And>u. u \<in> set xs \<Longrightarrow> ok g' u"
  using assms unfolding walked_def by blast+

lemma walked_node:
  assumes sh: "map shape g = map shape h"
    and tr: "travs h (children (h ! t)) xs"
    and t: "t < length h" "t \<notin> set xs" and xs: "\<forall>u\<in>set xs. u < length h"
    and w: "walked h xs g g1"
  shows "walked h (t # xs) g
           (if children (g1 ! t) \<noteq> [] then recalc_status_from_children g1 t else g1)"
proof -
  let ?g' = "recalc_status_from_children g1 t"
  have r: "(if children (g1 ! t) \<noteq> [] then ?g' else g1) = ?g'" by (simp add: recalc_leaf)
  note sh1 = walkedD(1)[OF w]
  have ch1: "children (g1 ! u) = children (h ! u)" if "u < length h" for u
    using same_shape_fields(1)[OF sh1 that] .
  have sub: "set (children (h ! t)) \<subseteq> set xs" by (rule travs_roots_subset[OF tr])
  show ?thesis unfolding r
  proof (rule walkedI)
    show "map shape ?g' = map shape h" using sh1 by (simp add: shape_recalc)
  next
    fix u assume "u \<notin> set (t # xs)"
    then have "u \<noteq> t" "u \<notin> set xs" by simp_all
    then show "?g' ! u = g ! u" using walkedD(2)[OF w] by (simp add: recalc_nth_other)
  next
    fix u assume u: "u \<in> set (t # xs)" "children (h ! u) = []"
    show "?g' ! u = g ! u"
    proof (cases "u = t")
      case True
      then have "children (g1 ! t) = []" using ch1[OF t(1)] u(2) by simp
      then have "?g' = g1" by (rule recalc_leaf)
      then show ?thesis using True walkedD(2)[OF w t(2)] by simp
    next
      case False
      then have "u \<in> set xs" using u(1) by simp
      from walkedD(3)[OF w this u(2)] show ?thesis using False by (simp add: recalc_nth_other)
    qed
  next
    fix u assume u: "u \<in> set (t # xs)"
    show "ok ?g' u"
    proof (cases "u = t")
      case True
      have "t \<notin> set (children (g1 ! t))" using sub t(2) ch1[OF t(1)] by auto
      from ok_recalc_self[OF _ this] show ?thesis
        using True t(1) same_shape_length[OF sh1] by simp
    next
      case False
      then have ux: "u \<in> set xs" using u by simp
      then have ul: "u < length h" using xs by simp
      have "t \<notin> set (children (g1 ! u))"
        using travs_closed[OF tr ux, of t] t(2) ch1[OF ul] by auto
      from ok_recalc_other[OF this False] walkedD(4)[OF w ux] show ?thesis by simp
    qed
  qed
qed

lemma walked_seq:
  assumes tr: "trav h c x1" and x1: "\<forall>u\<in>set x1. u < length h"
    and dj: "set x1 \<inter> set x2 = {}"
    and w1: "walked h x1 g g1" and w2: "walked h x2 g1 g2"
  shows "walked h (x1 @ x2) g g2"
proof (rule walkedI)
  show "map shape g2 = map shape h" by (rule walkedD(1)[OF w2])
next
  fix u assume "u \<notin> set (x1 @ x2)"
  then have "u \<notin> set x1" "u \<notin> set x2" by simp_all
  then show "g2 ! u = g ! u" using walkedD(2)[OF w1] walkedD(2)[OF w2] by simp
next
  fix u assume u: "u \<in> set (x1 @ x2)" "children (h ! u) = []"
  show "g2 ! u = g ! u"
  proof (cases "u \<in> set x1")
    case True
    then have "u \<notin> set x2" using dj by auto
    then show ?thesis using walkedD(2)[OF w2] walkedD(3)[OF w1 True u(2)] by simp
  next
    case False
    then have "u \<in> set x2" using u(1) by simp
    then show ?thesis using walkedD(3)[OF w2 _ u(2)] walkedD(2)[OF w1 False] by simp
  qed
next
  fix u assume u: "u \<in> set (x1 @ x2)"
  show "ok g2 u"
  proof (cases "u \<in> set x1")
    case True
    then have ul: "u < length h" using x1 by simp
    have ch1: "children (g1 ! u) = children (h ! u)"
      using same_shape_fields(1)[OF walkedD(1)[OF w1] ul] .
    have a: "g2 ! u = g1 ! u" using True dj walkedD(2)[OF w2, of u] by auto
    have b: "g2 ! c = g1 ! c" if "c \<in> set (children (g1 ! u))" for c
    proof -
      have "c \<in> set x1" using trav_closed[OF tr True, of c] that ch1 by simp
      then have "c \<notin> set x2" using dj by auto
      then show ?thesis by (rule walkedD(2)[OF w2])
    qed
    from ok_cong[of g2 u g1, OF a b] walkedD(4)[OF w1 True] show ?thesis by simp
  next
    case False
    then have "u \<in> set x2" using u by simp
    then show ?thesis by (rule walkedD(4)[OF w2])
  qed
qed

lemma walked_nil: "map shape g = map shape h \<Longrightarrow> walked h [] g g"
  by (simp add: walked_def)

lemma walk_trav_aux:
  "(trav h t xs \<longrightarrow>
      (\<forall>g f. map shape g = map shape h \<longrightarrow> length xs \<le> f \<longrightarrow> distinct xs \<longrightarrow>
         (\<forall>u\<in>set xs. u < length h) \<longrightarrow>
         (\<exists>g'. walk f g t = Some g' \<and> walked h xs g g'))) \<and>
   (travs h ts xs \<longrightarrow>
      (\<forall>g f. map shape g = map shape h \<longrightarrow> length xs \<le> f \<longrightarrow> distinct xs \<longrightarrow>
         (\<forall>u\<in>set xs. u < length h) \<longrightarrow>
         (\<exists>g'. for_each (walk f) g ts = Some g' \<and> walked h xs g g')))"
proof (induct rule: trav_travs.induct)
  case (node t xs)
  show ?case
  proof (intro allI impI)
    fix g f
    assume sh: "map shape g = map shape h" and f: "length (t # xs) \<le> f"
      and d: "distinct (t # xs)" and b: "\<forall>u\<in>set (t # xs). u < length h"
    from f obtain f' where f': "f = Suc f'" "length xs \<le> f'" by (cases f) simp_all
    have t: "t < length h" "t \<notin> set xs" using d b by simp_all
    have xs: "\<forall>u\<in>set xs. u < length h" "distinct xs" using d b by simp_all
    from node.hyps(2) sh f'(2) xs obtain g1 where
      g1: "for_each (walk f') g (children (h ! t)) = Some g1" "walked h xs g g1" by blast
    have "children (g ! t) = children (h ! t)" using same_shape_fields(1)[OF sh t(1)] .
    then have "walk f g t =
        Some (if children (g1 ! t) \<noteq> [] then recalc_status_from_children g1 t else g1)"
      unfolding f'(1) using g1(1) by simp
    moreover note walked_node[OF sh node.hyps(1) t xs(1) g1(2)]
    ultimately show "\<exists>g'. walk f g t = Some g' \<and> walked h (t # xs) g g'" by blast
  qed
next
  case nil
  then show ?case by (simp add: walked_nil)
next
  case (cons c xs cs ys)
  show ?case
  proof (intro allI impI)
    fix g f
    assume sh: "map shape g = map shape h" and f: "length (xs @ ys) \<le> f"
      and d: "distinct (xs @ ys)" and b: "\<forall>u\<in>set (xs @ ys). u < length h"
    have fx: "length xs \<le> f" "length ys \<le> f" using f by simp_all
    have dx: "distinct xs" "distinct ys" "set xs \<inter> set ys = {}" using d by simp_all
    have bx: "\<forall>u\<in>set xs. u < length h" "\<forall>u\<in>set ys. u < length h" using b by simp_all
    from cons.hyps(2) sh fx(1) dx(1) bx(1) obtain g1 where
      g1: "walk f g c = Some g1" "walked h xs g g1" by blast
    have sh1: "map shape g1 = map shape h" by (rule walkedD(1)[OF g1(2)])
    from cons.hyps(4) sh1 fx(2) dx(2) bx(2) obtain g2 where
      g2: "for_each (walk f) g1 cs = Some g2" "walked h ys g1 g2" by blast
    have "for_each (walk f) g (c # cs) = Some g2" using g1(1) g2(1) by simp
    moreover note walked_seq[OF cons.hyps(1) bx(1) dx(3) g1(2) g2(2)]
    ultimately show "\<exists>g'. for_each (walk f) g (c # cs) = Some g' \<and> walked h (xs @ ys) g g'"
      by blast
  qed
qed

lemma walk_roots:
  assumes "travs h ts xs" "length xs \<le> f" "distinct xs" "\<forall>u\<in>set xs. u < length h"
  shows "\<exists>h'. for_each (walk f) h ts = Some h' \<and> walked h xs h h'"
  using walk_trav_aux[where h=h and ts=ts and xs=xs] assms by blast

section \<open>The forest the parser returns\<close>

lemma dep_ok_shape:
  assumes d: "dep_ok h" and w: "wf_store h rs" and s: "map shape h' = map shape h"
  shows "dep_ok h'"
  unfolding dep_ok_def
proof (intro allI impI)
  fix t assume "t < length h'"
  then have t: "t < length h" using same_shape_length[OF s] by simp
  note f = same_shape_fields[OF s]
  show "depth (h' ! t) = (case parent (h' ! t) of None \<Rightarrow> 0 | Some p \<Rightarrow> Suc (depth (h' ! p)))"
  proof (cases "parent (h ! t)")
    case None
    then show ?thesis using dep_okD[OF d t] f(2,3)[OF t] by simp
  next
    case (Some p)
    from wf_parent[OF w t Some] t have "p < length h" by simp
    then show ?thesis using dep_okD[OF d t] f(2,3)[OF t] f(3)[of p] Some by simp
  qed
qed

lemma parse_text_cases:
  "parse_text text = Some (Inr F) \<longleftrightarrow>
     (\<exists>s h. parse_lines (readlines text) initial = Inr s \<and>
        for_each (walk (length (heap s))) (heap s) (tasks s) = Some h \<and>
        F = \<lparr>store = h, roots = tasks s\<rparr>)"
  by (auto simp: parse_text_def split: sum.splits option.splits)

lemma parse_lines_walk:
  assumes "parse_lines (readlines text) initial = Inr s"
  shows "cinv s"
    and "\<exists>h. for_each (walk (length (heap s))) (heap s) (tasks s) = Some h \<and>
           walked (heap s) [0..<length (heap s)] (heap s) h"
proof -
  show c: "cinv s" by (rule cinv_parse_lines[OF cinv_initial assms])
  show "\<exists>h. for_each (walk (length (heap s))) (heap s) (tasks s) = Some h \<and>
           walked (heap s) [0..<length (heap s)] (heap s) h"
    by (rule walk_roots[OF cinvD(3)[OF c]]) simp_all
qed

lemma parse_text_returns: "\<exists>r. parse_text text = Some r"
proof (cases "parse_lines (readlines text) initial")
  case (Inl e)
  then show ?thesis by (simp add: parse_text_def)
next
  case (Inr s)
  from parse_lines_walk(2)[OF Inr] show ?thesis using Inr by (auto simp: parse_text_def)
qed

lemma parse_text_walked:
  assumes "parse_text text = Some (Inr F)"
  shows "\<exists>s. parse_lines (readlines text) initial = Inr s \<and> cinv s \<and> roots F = tasks s \<and>
           walked (heap s) [0..<length (heap s)] (heap s) (store F)"
proof -
  from assms obtain s h where s: "parse_lines (readlines text) initial = Inr s"
    "for_each (walk (length (heap s))) (heap s) (tasks s) = Some h"
    "F = \<lparr>store = h, roots = tasks s\<rparr>"
    unfolding parse_text_cases by blast
  from parse_lines_walk[OF s(1)] s(2) have "cinv s"
    "walked (heap s) [0..<length (heap s)] (heap s) h" by auto
  then show ?thesis using s(1,3) by auto
qed

lemma finv_empty: "finv empty_forest"
  by (simp add: finv_def empty_forest_def wf_store_def dep_ok_def)

lemma finv_parse_text:
  assumes "parse_text text = Some (Inr F)"
  shows "finv F"
proof -
  from parse_text_walked[OF assms] obtain s where s:
    "cinv s" "roots F = tasks s" "walked (heap s) [0..<length (heap s)] (heap s) (store F)"
    by blast
  note p = cinvD(1)[OF s(1)]
  note sh = walkedD(1)[OF s(3)]
  have 1: "wf_store (store F) (roots F)"
    unfolding s(2) by (rule wf_store_shape[OF pinvD(1)[OF p] sh])
  have 2: "dep_ok (store F)" by (rule dep_ok_shape[OF pinvD(2)[OF p] pinvD(1)[OF p] sh])
  have 3: "\<forall>u<length (store F). ok (store F) u"
    using walkedD(4)[OF s(3)] same_shape_length[OF sh] by simp
  show ?thesis unfolding finv_def using 1 2 3 by blast
qed

lemma parse_file_cases:
  assumes "parse_tasks_from_file fs path = Some (Inr F)"
  shows "(fs path = Raises FileNotFoundError \<and> F = empty_forest) \<or>
         (\<exists>body. fs path = Text body \<and> parse_text body = Some (Inr F))"
  using assms
  by (cases "fs path") (auto simp: parse_tasks_from_file_def split: if_splits)

lemma finv_parse:
  assumes "parse_tasks_from_file fs path = Some (Inr F)"
  shows "finv F"
  using parse_file_cases[OF assms] finv_empty finv_parse_text by auto

lemma parse_returns: "\<exists>r. parse_tasks_from_file fs path = Some r"
  using parse_text_returns by (cases "fs path") (simp_all add: parse_tasks_from_file_def)

section \<open>Flattening a well-formed store\<close>

lemma for_each_flatten_total:
  assumes "\<And>c acc. c \<in> set cs \<Longrightarrow>
             \<exists>xs. flatten_walk f h acc c = Some (acc @ xs) \<and> (\<forall>u\<in>set xs. u < length h)"
  shows "\<exists>ys. for_each (flatten_walk f h) acc cs = Some (acc @ ys) \<and> (\<forall>u\<in>set ys. u < length h)"
  using assms
proof (induction cs arbitrary: acc)
  case Nil
  then show ?case by simp
next
  case (Cons c cs)
  from Cons.prems[of c acc] obtain xs where
    xs: "flatten_walk f h acc c = Some (acc @ xs)" "\<forall>u\<in>set xs. u < length h" by auto
  from Cons.IH[of "acc @ xs"] Cons.prems obtain ys where
    ys: "for_each (flatten_walk f h) (acc @ xs) cs = Some ((acc @ xs) @ ys)"
    "\<forall>u\<in>set ys. u < length h" by auto
  have "for_each (flatten_walk f h) acc (c # cs) = Some (acc @ (xs @ ys))"
    using xs(1) ys(1) by simp
  moreover have "\<forall>u\<in>set (xs @ ys). u < length h" using xs(2) ys(2) by auto
  ultimately show ?case by blast
qed

lemma flatten_walk_total:
  assumes w: "wf_store h rs"
  shows "t < length h \<Longrightarrow> length h - t \<le> f \<Longrightarrow>
           \<exists>xs. flatten_walk f h acc t = Some (acc @ xs) \<and> (\<forall>u\<in>set xs. u < length h)"
proof (induction f arbitrary: t acc)
  case 0
  then show ?case by simp
next
  case (Suc f)
  have "\<exists>xs. flatten_walk f h a c = Some (a @ xs) \<and> (\<forall>u\<in>set xs. u < length h)"
    if "c \<in> set (children (h ! t))" for c a
  proof -
    from wf_child[OF w Suc.prems(1) that] have c: "t < c" "c < length h" by simp_all
    then have "length h - c \<le> f" using Suc.prems(2) by simp
    from Suc.IH[OF c(2) this] show ?thesis .
  qed
  from for_each_flatten_total[of "children (h ! t)" f h "acc @ [t]", OF this] obtain ys where
    ys: "for_each (flatten_walk f h) (acc @ [t]) (children (h ! t)) = Some ((acc @ [t]) @ ys)"
    "\<forall>u\<in>set ys. u < length h" by blast
  have "flatten_walk (Suc f) h acc t = Some (acc @ (t # ys))" using ys(1) by simp
  moreover have "\<forall>u\<in>set (t # ys). u < length h" using ys(2) Suc.prems(1) by simp
  ultimately show ?case by blast
qed

lemma flatten_tasks_total:
  assumes w: "wf_store (store F) (roots F)"
  shows "\<exists>ts. flatten_tasks F = Some ts \<and> (\<forall>u\<in>set ts. u < length (store F))"
proof -
  have "\<exists>xs. flatten_walk (length (store F)) (store F) acc c = Some (acc @ xs) \<and>
          (\<forall>u\<in>set xs. u < length (store F))"
    if "c \<in> set (roots F)" for c acc
  proof -
    from wf_root[OF w that] have "c < length (store F)" by simp
    from flatten_walk_total[OF w this] show ?thesis by simp
  qed
  from for_each_flatten_total[of "roots F" "length (store F)" "store F" "[]", OF this]
  show ?thesis unfolding flatten_tasks_def by simp
qed

lemma get_selected_task_total:
  assumes w: "wf_store (store F) (roots F)"
  shows "\<exists>r. get_selected_task sel F = Some r \<and> (\<forall>t. r = Some t \<longrightarrow> t < length (store F))"
proof -
  from flatten_tasks_total[OF w] obtain ts where
    ts: "flatten_tasks F = Some ts" "\<forall>u\<in>set ts. u < length (store F)" by blast
  show ?thesis using ts by (cases sel) (auto simp: get_selected_task_def)
qed

section \<open>The two mutating actions\<close>

lemma finvD:
  assumes "finv F"
  shows "wf_store (store F) (roots F)" "dep_ok (store F)"
    "\<And>u. u < length (store F) \<Longrightarrow> ok (store F) u"
  using assms unfolding finv_def by blast+

lemma propagate_finv:
  assumes w: "wf_store h rs" and d: "dep_ok h" and t: "t < length h"
    and H: "\<forall>u<length h. u \<noteq> t \<and> parent (h ! t) \<noteq> Some u \<longrightarrow> ok h u"
  shows "\<exists>h'. propagate_up (length h) h t = Some h' \<and> finv \<lparr>store = h', roots = rs\<rparr> \<and>
           map shape h' = map shape h \<and>
           (\<forall>u<length h. children (h ! u) = [] \<longrightarrow> h' ! u = h ! u)"
proof -
  from propagate_up_ok[OF w t t H] obtain h' where h':
    "propagate_up (length h) h t = Some h'" "map shape h' = map shape h"
    "\<forall>u<length h. ok h' u" "\<forall>u<length h. children (h ! u) = [] \<longrightarrow> h' ! u = h ! u"
    by blast
  have "finv \<lparr>store = h', roots = rs\<rparr>"
    unfolding finv_def
    using wf_store_shape[OF w h'(2)] dep_ok_shape[OF d w h'(2)] h'(3)
      same_shape_length[OF h'(2)] by simp
  then show ?thesis using h' by blast
qed

lemma next_status_values:
  "next_status ''OPEN'' = ''IN_PROGRESS''"
  "next_status ''IN_PROGRESS'' = ''DONE''"
  "next_status ''DONE'' = ''OPEN''"
  "s \<noteq> ''OPEN'' \<Longrightarrow> s \<noteq> ''IN_PROGRESS'' \<Longrightarrow> s \<noteq> ''DONE'' \<Longrightarrow>
     next_status s = ''IN_PROGRESS''"
  by (simp_all add: next_status_def STATUS_CYCLE_def)

lemma toggle_unfold:
  assumes "get_selected_task sel F = Some (Some t)" "children (store F ! t) = []"
  shows "action_toggle_status sel F =
     (case propagate_up (length (store F))
             (set_status (store F) t (next_status (status (store F ! t)))) t of
        None \<Rightarrow> None | Some h2 \<Rightarrow> Some (F\<lparr>store := h2\<rparr>))"
  using assms
  by (simp add: action_toggle_status_def is_leaf_def Let_def next_status_def
      length_set_status)

lemma toggle_nothing:
  "get_selected_task sel F = Some None \<Longrightarrow> action_toggle_status sel F = Some F"
  by (simp add: action_toggle_status_def)

lemma toggle_interior:
  "get_selected_task sel F = Some (Some t) \<Longrightarrow> children (store F ! t) \<noteq> [] \<Longrightarrow>
     action_toggle_status sel F = Some F"
  by (simp add: action_toggle_status_def is_leaf_def)

lemma toggle_leaf:
  assumes i: "finv F" and g: "get_selected_task sel F = Some (Some t)"
    and l: "children (store F ! t) = []"
  shows "\<exists>h2. action_toggle_status sel F = Some (F\<lparr>store := h2\<rparr>) \<and>
           finv (F\<lparr>store := h2\<rparr>) \<and> map shape h2 = map shape (store F) \<and>
           h2 ! t = (store F ! t)\<lparr>status := next_status (status (store F ! t))\<rparr> \<and>
           (\<forall>u<length (store F). u \<noteq> t \<longrightarrow> children (store F ! u) = [] \<longrightarrow>
              h2 ! u = store F ! u)"
proof -
  let ?h = "store F"
  let ?h1 = "set_status ?h t (next_status (status (?h ! t)))"
  note w = finvD(1)[OF i]
  from get_selected_task_total[OF w, of sel] g have t: "t < length ?h" by auto
  have sh: "map shape ?h1 = map shape ?h" by (rule shape_set_status)
  have len: "length ?h1 = length ?h" by (rule length_set_status)
  have w1: "wf_store ?h1 (roots F)" by (rule wf_store_shape[OF w sh])
  have d1: "dep_ok ?h1" by (rule dep_ok_shape[OF finvD(2)[OF i] w sh])
  have t1: "t < length ?h1" using t len by simp
  have par: "parent (?h1 ! t) = parent (?h ! t)" by (rule same_shape_fields(2)[OF sh t])
  have H: "\<forall>u<length ?h1. u \<noteq> t \<and> parent (?h1 ! t) \<noteq> Some u \<longrightarrow> ok ?h1 u"
  proof (intro allI impI)
    fix u assume u: "u < length ?h1" "u \<noteq> t \<and> parent (?h1 ! t) \<noteq> Some u"
    then have ul: "u < length ?h" using len by simp
    have "t \<notin> set (children (?h ! u))"
      using wf_child[OF w ul, of t] u(2) par by auto
    from ok_set_status_other[OF this] u(2) finvD(3)[OF i ul] show "ok ?h1 u" by simp
  qed
  from propagate_finv[OF w1 d1 t1 H] obtain h2 where h2:
    "propagate_up (length ?h1) ?h1 t = Some h2" "finv \<lparr>store = h2, roots = roots F\<rparr>"
    "map shape h2 = map shape ?h1"
    "\<forall>u<length ?h1. children (?h1 ! u) = [] \<longrightarrow> h2 ! u = ?h1 ! u"
    by blast
  have F': "F\<lparr>store := h2\<rparr> = \<lparr>store = h2, roots = roots F\<rparr>" by simp
  have a: "action_toggle_status sel F = Some (F\<lparr>store := h2\<rparr>)"
    unfolding toggle_unfold[OF g l] using h2(1) len by simp
  have ch1: "children (?h1 ! u) = children (?h ! u)" if "u < length ?h" for u
    by (rule same_shape_fields(1)[OF sh that])
  have "h2 ! t = ?h1 ! t" using h2(4) t1 ch1[OF t] l by simp
  then have b: "h2 ! t = (?h ! t)\<lparr>status := next_status (status (?h ! t))\<rparr>"
    using t by (simp add: set_status_nth_same)
  have c: "\<forall>u<length ?h. u \<noteq> t \<longrightarrow> children (?h ! u) = [] \<longrightarrow> h2 ! u = ?h ! u"
  proof (intro allI impI)
    fix u assume u: "u < length ?h" "u \<noteq> t" "children (?h ! u) = []"
    then have "h2 ! u = ?h1 ! u" using h2(4) len ch1[OF u(1)] by simp
    then show "h2 ! u = ?h ! u" using u(2) by (simp add: set_status_nth_other)
  qed
  have e: "map shape h2 = map shape ?h" using h2(3) sh by simp
  have f: "finv (F\<lparr>store := h2\<rparr>)" using h2(2) unfolding F' .
  show ?thesis
    by (rule exI[of _ h2]) (intro conjI a f e b c)
qed

lemma finv_toggle:
  assumes i: "finv F" and a: "action_toggle_status sel F = Some F'"
  shows "finv F'"
proof -
  from get_selected_task_total[OF finvD(1)[OF i], of sel] obtain r where
    r: "get_selected_task sel F = Some r" by blast
  show ?thesis
  proof (cases r)
    case None
    then show ?thesis using toggle_nothing[of sel F] r a i by simp
  next
    case (Some t)
    show ?thesis
    proof (cases "children (store F ! t) = []")
      case True
      from toggle_leaf[OF i r[unfolded Some] True] a show ?thesis by auto
    next
      case False
      then show ?thesis using toggle_interior[of sel F t] r Some a i by simp
    qed
  qed
qed

lemma toggle_returns:
  assumes i: "finv F"
  shows "\<exists>F'. action_toggle_status sel F = Some F'"
proof -
  from get_selected_task_total[OF finvD(1)[OF i], of sel] obtain r where
    r: "get_selected_task sel F = Some r" by blast
  show ?thesis
  proof (cases r)
    case None
    then show ?thesis using toggle_nothing[of sel F] r by simp
  next
    case (Some t)
    show ?thesis
    proof (cases "children (store F ! t) = []")
      case True
      from toggle_leaf[OF i r[unfolded Some] True] show ?thesis by blast
    next
      case False
      then show ?thesis using toggle_interior[of sel F t] r Some by simp
    qed
  qed
qed

lemma ok_status_cong:
  assumes "children (g' ! u) = children (g ! u)" "status (g' ! u) = status (g ! u)"
    and "\<And>c. c \<in> set (children (g ! u)) \<Longrightarrow> status (g' ! c) = status (g ! c)"
  shows "ok g' u = ok g u"
proof -
  have "child_statuses g' u = child_statuses g u"
    unfolding child_statuses_def using assms(1,3) by simp
  then show ?thesis unfolding ok_def using assms(1,2) by simp
qed

lemma ok_append:
  assumes w: "wf_store h rs" and u: "u < length h"
  shows "ok (h @ [c]) u = ok h u"
proof (rule ok_status_cong)
  show "children ((h @ [c]) ! u) = children (h ! u)" using u by (simp add: nth_append)
  show "status ((h @ [c]) ! u) = status (h ! u)" using u by (simp add: nth_append)
  fix x assume "x \<in> set (children (h ! u))"
  from wf_child[OF w u this] show "status ((h @ [c]) ! x) = status (h ! x)"
    by (simp add: nth_append)
qed

lemma ok_link:
  assumes w: "wf_store h rs" and u: "u < length h" "u \<noteq> p" and p: "p < length h"
  shows "ok (link h p c) u = ok h u"
proof (rule ok_status_cong)
  show "children (link h p c ! u) = children (h ! u)"
    using u p by (simp add: link_children_old)
  show "status (link h p c ! u) = status (h ! u)" using u p by (simp add: link_status_old)
  fix x assume "x \<in> set (children (h ! u))"
  from wf_child[OF w u(1) this] show "status (link h p c ! x) = status (h ! x)"
    using p by (simp add: link_status_old)
qed

lemma add_cancel: "add_subtask_worker par None F = Some F"
  by (simp add: add_subtask_worker_def)

lemma add_root:
  assumes i: "finv F"
  shows "\<exists>h2. add_subtask_worker None (Some (nm, du)) F =
                 Some \<lparr>store = h2, roots = roots F @ [length (store F)]\<rparr> \<and>
           finv \<lparr>store = h2, roots = roots F @ [length (store F)]\<rparr> \<and>
           length h2 = Suc (length (store F)) \<and>
           h2 ! length (store F) =
             \<lparr>name = nm, status = ''OPEN'', due = du, children = [], parent = None, depth = 0\<rparr> \<and>
           (\<forall>u<length (store F). children (h2 ! u) = children (store F ! u) \<and>
              (children (store F ! u) = [] \<longrightarrow> h2 ! u = store F ! u))"
proof -
  let ?h = "store F"
  let ?n = "length ?h"
  let ?c = "\<lparr>name = nm, status = ''OPEN'', due = du, children = [], parent = None, depth = 0\<rparr>"
  let ?h1 = "?h @ [?c]"
  note w = finvD(1)[OF i]
  have w1: "wf_store ?h1 (roots F @ [?n])" by (rule wf_new_root[OF w]) simp_all
  have d1: "dep_ok ?h1" by (rule dep_new_root[OF finvD(2)[OF i] w]) simp_all
  have t1: "?n < length ?h1" by simp
  have H: "\<forall>u<length ?h1. u \<noteq> ?n \<and> parent (?h1 ! ?n) \<noteq> Some u \<longrightarrow> ok ?h1 u"
  proof (intro allI impI)
    fix u assume "u < length ?h1" "u \<noteq> ?n \<and> parent (?h1 ! ?n) \<noteq> Some u"
    then have ul: "u < ?n" by simp
    from ok_append[OF w ul, of ?c] finvD(3)[OF i ul] show "ok ?h1 u" by simp
  qed
  from propagate_finv[OF w1 d1 t1 H] obtain h2 where h2:
    "propagate_up (length ?h1) ?h1 ?n = Some h2"
    "finv \<lparr>store = h2, roots = roots F @ [?n]\<rparr>"
    "map shape h2 = map shape ?h1"
    "\<forall>u<length ?h1. children (?h1 ! u) = [] \<longrightarrow> h2 ! u = ?h1 ! u"
    by blast
  have a: "add_subtask_worker None (Some (nm, du)) F =
             Some \<lparr>store = h2, roots = roots F @ [?n]\<rparr>"
    using h2(1) by (simp add: add_subtask_worker_def Let_def)
  have b: "length h2 = Suc ?n" using same_shape_length[OF h2(3)] by simp
  have c: "h2 ! ?n = ?c" using h2(4) by simp
  have e: "\<forall>u<?n. children (h2 ! u) = children (?h ! u) \<and>
             (children (?h ! u) = [] \<longrightarrow> h2 ! u = ?h ! u)"
  proof (intro allI impI)
    fix u assume u: "u < ?n"
    then have u1: "u < length ?h1" by simp
    have "children (h2 ! u) = children (?h1 ! u)" by (rule same_shape_fields(1)[OF h2(3) u1])
    then have 1: "children (h2 ! u) = children (?h ! u)" using u by (simp add: nth_append)
    have 2: "h2 ! u = ?h ! u" if "children (?h ! u) = []"
    proof -
      have "children (?h1 ! u) = []" using that u by (simp add: nth_append)
      then have "h2 ! u = ?h1 ! u" using h2(4) u1 by blast
      then show ?thesis using u by (simp add: nth_append)
    qed
    show "children (h2 ! u) = children (?h ! u) \<and>
            (children (?h ! u) = [] \<longrightarrow> h2 ! u = ?h ! u)" using 1 2 by blast
  qed
  show ?thesis by (rule exI[of _ h2]) (intro conjI a h2(2) b c e)
qed

lemma add_child:
  assumes i: "finv F" and p: "p < length (store F)"
  shows "\<exists>h3. add_subtask_worker (Some p) (Some (nm, du)) F =
                 Some \<lparr>store = h3, roots = roots F\<rparr> \<and>
           finv \<lparr>store = h3, roots = roots F\<rparr> \<and>
           length h3 = Suc (length (store F)) \<and>
           h3 ! length (store F) =
             \<lparr>name = nm, status = ''OPEN'', due = du, children = [], parent = Some p,
                depth = depth (store F ! p) + 1\<rparr> \<and>
           children (h3 ! p) = children (store F ! p) @ [length (store F)] \<and>
           (\<forall>u<length (store F). u \<noteq> p \<longrightarrow>
              children (h3 ! u) = children (store F ! u) \<and>
              (children (store F ! u) = [] \<longrightarrow> h3 ! u = store F ! u))"
proof -
  let ?h = "store F"
  let ?n = "length ?h"
  let ?c = "\<lparr>name = nm, status = ''OPEN'', due = du, children = [], parent = Some p,
                depth = depth (store F ! p) + 1\<rparr>"
  let ?h2 = "link ?h p ?c"
  note w = finvD(1)[OF i]
  have w2: "wf_store ?h2 (roots F)" by (rule wf_link[OF w p]) simp_all
  have d2: "dep_ok ?h2" by (rule dep_link[OF finvD(2)[OF i] w p]) simp_all
  have t2: "?n < length ?h2" by simp
  have new: "?h2 ! ?n = ?c" by (rule link_nth_new[OF p])
  have H: "\<forall>u<length ?h2. u \<noteq> ?n \<and> parent (?h2 ! ?n) \<noteq> Some u \<longrightarrow> ok ?h2 u"
  proof (intro allI impI)
    fix u assume "u < length ?h2" "u \<noteq> ?n \<and> parent (?h2 ! ?n) \<noteq> Some u"
    then have ul: "u < ?n" "u \<noteq> p" unfolding new by simp_all
    from ok_link[OF w ul p, of ?c] finvD(3)[OF i ul(1)] show "ok ?h2 u" by simp
  qed
  from propagate_finv[OF w2 d2 t2 H] obtain h3 where h3:
    "propagate_up (length ?h2) ?h2 ?n = Some h3"
    "finv \<lparr>store = h3, roots = roots F\<rparr>"
    "map shape h3 = map shape ?h2"
    "\<forall>u<length ?h2. children (?h2 ! u) = [] \<longrightarrow> h3 ! u = ?h2 ! u"
    by blast
  have a: "add_subtask_worker (Some p) (Some (nm, du)) F =
             Some \<lparr>store = h3, roots = roots F\<rparr>"
    using h3(1) by (simp add: add_subtask_worker_def Let_def link_def)
  have b: "length h3 = Suc ?n" using same_shape_length[OF h3(3)] by simp
  have "h3 ! ?n = ?h2 ! ?n" using h3(4) new by simp
  then have c: "h3 ! ?n = ?c" using new by simp
  have pl: "p < length ?h2" using p by simp
  have "children (h3 ! p) = children (?h2 ! p)" by (rule same_shape_fields(1)[OF h3(3) pl])
  then have e1: "children (h3 ! p) = children (?h ! p) @ [?n]"
    using p by (simp add: link_children_old)
  have e2: "\<forall>u<?n. u \<noteq> p \<longrightarrow> children (h3 ! u) = children (?h ! u) \<and>
             (children (?h ! u) = [] \<longrightarrow> h3 ! u = ?h ! u)"
  proof (intro allI impI)
    fix u assume u: "u < ?n" "u \<noteq> p"
    then have u2: "u < length ?h2" by simp
    have o: "?h2 ! u = ?h ! u" by (rule link_nth_other[OF u])
    have "children (h3 ! u) = children (?h2 ! u)" by (rule same_shape_fields(1)[OF h3(3) u2])
    then have 1: "children (h3 ! u) = children (?h ! u)" using o by simp
    have 2: "h3 ! u = ?h ! u" if "children (?h ! u) = []"
    proof -
      have "children (?h2 ! u) = []" using that o by simp
      then have "h3 ! u = ?h2 ! u" using h3(4) u2 by blast
      then show ?thesis using o by simp
    qed
    show "children (h3 ! u) = children (?h ! u) \<and>
            (children (?h ! u) = [] \<longrightarrow> h3 ! u = ?h ! u)" using 1 2 by blast
  qed
  show ?thesis by (rule exI[of _ h3]) (intro conjI a h3(2) b c e1 e2)
qed

lemma finv_add:
  assumes i: "finv F" and p: "par = None \<or> (\<exists>p. par = Some p \<and> p < length (store F))"
    and a: "add_subtask_worker par result F = Some F'"
  shows "finv F'"
proof (cases result)
  case None
  then show ?thesis using a i add_cancel by simp
next
  case (Some r)
  obtain nm du where r: "r = (nm, du)" by (cases r)
  show ?thesis
  proof (cases par)
    case None
    from add_root[OF i, of nm du] a show ?thesis unfolding Some r None by auto
  next
    case (Some q)
    then have "q < length (store F)" using p by simp
    from add_child[OF i this, of nm du] a show ?thesis
      unfolding \<open>result = Some r\<close> r Some by auto
  qed
qed

lemma finv_reachable: "reachable F \<Longrightarrow> finv F"
proof (induction rule: reachable.induct)
  case (mount fs path F)
  then show ?case by (rule finv_parse)
next
  case (toggle F sel F')
  then show ?case using finv_toggle by blast
next
  case (add F par result F')
  then show ?case using finv_add by blast
qed

lemma derived_status_cases:
  assumes "ss \<noteq> []"
  shows "(derived_status ss = ''DONE'') = (\<forall>s\<in>set ss. s = ''DONE'')"
    and "(derived_status ss = ''OPEN'') = (\<forall>s\<in>set ss. s = ''OPEN'')"
    and "(derived_status ss = ''IN_PROGRESS'') =
           (\<not> (\<forall>s\<in>set ss. s = ''DONE'') \<and> \<not> (\<forall>s\<in>set ss. s = ''OPEN''))"
proof -
  obtain x xs where ss: "ss = x # xs" using assms by (cases ss) auto
  have ex: "\<not> ((\<forall>s\<in>set ss. s = ''DONE'') \<and> (\<forall>s\<in>set ss. s = ''OPEN''))"
    unfolding ss by auto
  show "(derived_status ss = ''DONE'') = (\<forall>s\<in>set ss. s = ''DONE'')"
    using ex by (auto simp: derived_status_def list_all_iff)
  show "(derived_status ss = ''OPEN'') = (\<forall>s\<in>set ss. s = ''OPEN'')"
    using ex by (auto simp: derived_status_def list_all_iff)
  show "(derived_status ss = ''IN_PROGRESS'') =
           (\<not> (\<forall>s\<in>set ss. s = ''DONE'') \<and> \<not> (\<forall>s\<in>set ss. s = ''OPEN''))"
    by (auto simp: derived_status_def list_all_iff)
qed

lemma finv_rollup: "finv F \<Longrightarrow> rollup_ok F"
  unfolding rollup_ok_def
proof (intro allI impI)
  fix t assume i: "finv F" and t: "t < length (store F)" and c: "children (store F ! t) \<noteq> []"
  let ?ss = "child_statuses (store F) t"
  have ne: "?ss \<noteq> []" using c by (simp add: child_statuses_def)
  have s: "status (store F ! t) = derived_status ?ss"
    using finvD(3)[OF i t] c by (simp add: ok_def)
  have set: "(\<forall>s\<in>set ?ss. s = x) = (\<forall>c\<in>set (children (store F ! t)). status (store F ! c) = x)"
    for x by (simp add: child_statuses_def)
  show "((status (store F ! t) = ''DONE'') =
           (\<forall>c\<in>set (children (store F ! t)). status (store F ! c) = ''DONE'')) \<and>
        ((status (store F ! t) = ''OPEN'') =
           (\<forall>c\<in>set (children (store F ! t)). status (store F ! c) = ''OPEN'')) \<and>
        ((status (store F ! t) = ''IN_PROGRESS'') =
           (\<not> (\<forall>c\<in>set (children (store F ! t)). status (store F ! c) = ''DONE'') \<and>
            \<not> (\<forall>c\<in>set (children (store F ! t)). status (store F ! c) = ''OPEN'')))"
    unfolding s derived_status_cases[OF ne] set by simp
qed

lemma finv_depth: "finv F \<Longrightarrow> depth_ok F"
proof -
  assume i: "finv F"
  note w = finvD(1)[OF i] and d = finvD(2)[OF i]
  let ?h = "store F"
  have 1: "case parent (?h ! t) of
            None \<Rightarrow> t \<in> set (roots F) \<and> depth (?h ! t) = 0
          | Some p \<Rightarrow> p < length ?h \<and> t \<in> set (children (?h ! p)) \<and>
                      depth (?h ! t) = depth (?h ! p) + 1" if t: "t < length ?h" for t
  proof (cases "parent (?h ! t)")
    case None
    then show ?thesis using wf_orphan[OF w t] dep_okD[OF d t] by simp
  next
    case (Some p)
    from wf_parent[OF w t Some] t have "p < length ?h" "t \<in> set (children (?h ! p))" by simp_all
    then show ?thesis using Some dep_okD[OF d t] by simp
  qed
  have 2: "r < length ?h \<and> parent (?h ! r) = None \<and> depth (?h ! r) = 0"
    if "r \<in> set (roots F)" for r
  proof -
    from wf_root[OF w that] have r: "r < length ?h" "parent (?h ! r) = None" by simp_all
    then show ?thesis using dep_okD[OF d r(1)] by simp
  qed
  have 3: "c < length ?h \<and> parent (?h ! c) = Some t \<and> depth (?h ! c) = depth (?h ! t) + 1"
    if "t < length ?h" "c \<in> set (children (?h ! t))" for t c
  proof -
    from wf_child[OF w that] have c: "c < length ?h" "parent (?h ! c) = Some t" by simp_all
    then show ?thesis using dep_okD[OF d c(1)] by simp
  qed
  show "depth_ok F" unfolding depth_ok_def using 1 2 3 by blast
qed

section \<open>The example files\<close>

lemma load_mixed: "parse_tasks_from_file mixed_files ''tasks.lc'' = Some (Inr mixed)"
  by code_simp

lemma reachable_mixed: "reachable mixed"
  by (rule reachable.mount[OF load_mixed])

lemma load_odd: "parse_tasks_from_file odd_files ''tasks.lc'' = Some (Inr odd)"
  by code_simp

lemma reachable_odd: "reachable odd"
  by (rule reachable.mount[OF load_odd])

lemma select_mixed: "get_selected_task (Some 2) mixed = Some (Some 2)"
  by code_simp

lemma select_odd: "get_selected_task (Some 0) odd = Some (Some 0)"
  by code_simp

lemma toggle_mixed:
  "action_toggle_status (Some 2) mixed =
     Some (mixed\<lparr>store := (store mixed)[2 := (store mixed ! 2)\<lparr>status := ''IN_PROGRESS''\<rparr>]\<rparr>)"
  by code_simp

lemma flatten_mixed: "flatten_tasks mixed = Some [0, 1, 2]"
  by code_simp

lemma save_text_mixed:
  "save_text mixed = Some ''A:IN_PROGRESS:\<newline>    B:DONE:\<newline>    C:OPEN:\<newline>''"
  by code_simp

lemma save_text_returns:
  assumes "reachable F"
  shows "\<exists>text. save_text F = Some text"
proof -
  from flatten_tasks_total[OF finvD(1)[OF finv_reachable[OF assms]]] obtain ts where
    "flatten_tasks F = Some ts" by blast
  then show ?thesis by (simp add: save_text_def)
qed

section \<open>Stripping\<close>

lemma rstrip_decomp: "s = rstrip s @ rev (takeWhile isspace (rev s))"
proof -
  have "rev (takeWhile isspace (rev s) @ dropWhile isspace (rev s)) = rev (rev s)"
    by (simp only: takeWhile_dropWhile_id)
  then have "rev (dropWhile isspace (rev s)) @ rev (takeWhile isspace (rev s)) = s"
    by (simp only: rev_append rev_rev_ident)
  then show ?thesis by (simp only: rstrip_def)
qed

lemma rstrip_last: "rstrip s \<noteq> [] \<Longrightarrow> \<not> isspace (last (rstrip s))"
proof -
  assume "rstrip s \<noteq> []"
  then have ne: "dropWhile isspace (rev s) \<noteq> []" by (simp add: rstrip_def)
  then have "\<not> isspace (hd (dropWhile isspace (rev s)))" by (rule hd_dropWhile)
  then show ?thesis using ne by (simp add: rstrip_def last_rev)
qed

lemma rstrip_id: "s = [] \<or> \<not> isspace (last s) \<Longrightarrow> rstrip s = s"
proof (cases "s = []")
  case True
  then show ?thesis by (simp add: rstrip_def)
next
  case False
  assume "s = [] \<or> \<not> isspace (last s)"
  then have "\<not> isspace (hd (rev s))" using False by (simp add: hd_rev)
  then have "dropWhile isspace (rev s) = rev s" using False by (cases "rev s") simp_all
  then show ?thesis by (simp add: rstrip_def)
qed

lemma set_rstrip: "set (rstrip s) \<subseteq> set s"
  using set_dropWhileD[of _ isspace "rev s"] by (auto simp: rstrip_def)

lemma set_lstrip: "set (lstrip s) \<subseteq> set s"
  using set_dropWhileD[of _ isspace s] by (auto simp: lstrip_def)

lemma set_strip: "set (strip s) \<subseteq> set s"
  using set_rstrip[of "lstrip s"] set_lstrip[of s] by (auto simp: strip_def)

lemma lstrip_hd: "lstrip s \<noteq> [] \<Longrightarrow> \<not> isspace (hd (lstrip s))"
  unfolding lstrip_def by (rule hd_dropWhile)

lemma lstrip_id: "s = [] \<or> \<not> isspace (hd s) \<Longrightarrow> lstrip s = s"
  by (cases s) (simp_all add: lstrip_def)

lemma rstrip_hd:
  assumes "s \<noteq> []" "\<not> isspace (hd s)"
  shows "rstrip s \<noteq> [] \<and> hd (rstrip s) = hd s"
proof -
  have ne: "rstrip s \<noteq> []"
  proof
    assume e: "rstrip s = []"
    then have "s = rev (takeWhile isspace (rev s))" using rstrip_decomp[of s] by simp
    then have "set s = set (takeWhile isspace (rev s))" by (metis set_rev)
    then have "\<forall>c\<in>set s. isspace c" using set_takeWhileD by fastforce
    then show False using assms by (cases s) simp_all
  qed
  then have "hd s = hd (rstrip s)" using rstrip_decomp[of s] by (metis hd_append2)
  then show ?thesis using ne by simp
qed

lemma stripped_strip: "stripped (strip s)"
proof (cases "lstrip s = []")
  case True
  then show ?thesis by (simp add: strip_def stripped_def rstrip_def)
next
  case False
  from rstrip_hd[OF False lstrip_hd[OF False]] rstrip_last[of "lstrip s"]
  show ?thesis using lstrip_hd[OF False] by (simp add: strip_def stripped_def)
qed

lemma strip_id: "stripped s \<Longrightarrow> strip s = s"
  unfolding stripped_def strip_def using lstrip_id[of s] rstrip_id[of s] by auto

lemma strip_hd:
  assumes "s \<noteq> []" "\<not> isspace (hd s)"
  shows "strip s \<noteq> [] \<and> hd (strip s) = hd s"
  using rstrip_hd[OF assms] lstrip_id[of s] assms by (simp add: strip_def)

lemma strip_colon: "CHR '':'' \<notin> set s \<Longrightarrow> CHR '':'' \<notin> set (strip s)"
  using set_strip by fastforce

lemma clean_strip: "clean s \<Longrightarrow> clean (strip s)"
  unfolding clean_def using set_strip by fastforce

lemma clean_append [simp]: "clean (a @ b) = (clean a \<and> clean b)"
  by (auto simp: clean_def)

lemma clean_Cons [simp]: "clean (c # s) = (c \<noteq> CHR 0x0A \<and> c \<noteq> CHR 0x0D \<and> clean s)"
  by (auto simp: clean_def)

lemma clean_Nil [simp]: "clean []"
  by (simp add: clean_def)

lemma clean_replicate [simp]: "clean (replicate k (CHR '' ''))"
  by (simp add: clean_def)

section \<open>The lines of a file\<close>

lemma universal_newlines_no_cr: "CHR 0x0D \<notin> set (universal_newlines s)"
  by (induction s rule: universal_newlines.induct) (auto split: list.splits)

lemma universal_newlines_id: "CHR 0x0D \<notin> set s \<Longrightarrow> universal_newlines s = s"
  by (induction s rule: universal_newlines.induct) (auto split: list.splits)

lemma split_lines_ok:
  "CHR 0x0D \<notin> set cur \<Longrightarrow> CHR 0x0D \<notin> set s \<Longrightarrow> CHR 0x0A \<notin> set cur \<Longrightarrow>
     \<forall>l\<in>set (split_lines cur s). line_ok l"
proof (induction s arbitrary: cur)
  case Nil
  then show ?case by (auto simp: line_ok_def dest: in_set_butlastD)
next
  case (Cons c cs)
  show ?case
  proof (cases "c = CHR 0x0A")
    case True
    have "line_ok (cur @ [c])" using Cons.prems True by (simp add: line_ok_def)
    moreover have "\<forall>l\<in>set (split_lines [] cs). line_ok l"
      using Cons.IH[of "[]"] Cons.prems by simp
    ultimately show ?thesis using True by simp
  next
    case False
    have "\<forall>l\<in>set (split_lines (cur @ [c]) cs). line_ok l"
      using Cons.IH[of "cur @ [c]"] Cons.prems False by simp
    then show ?thesis using False by simp
  qed
qed

lemma readlines_ok: "\<forall>l\<in>set (readlines body). line_ok l"
  unfolding readlines_def
  by (rule split_lines_ok) (simp_all add: universal_newlines_no_cr)

lemma rstrip_nl_snoc: "CHR 0x0A \<notin> set b \<Longrightarrow> rstrip_nl (b @ [CHR 0x0A]) = b"
proof -
  assume a: "CHR 0x0A \<notin> set b"
  have "dropWhile (\<lambda>c. c = CHR 0x0A) (rev b) = rev b"
    using a by (cases "rev b") (auto simp: )
  then show ?thesis by (simp add: rstrip_nl_def)
qed

lemma rstrip_nl_id: "CHR 0x0A \<notin> set b \<Longrightarrow> rstrip_nl b = b"
proof -
  assume a: "CHR 0x0A \<notin> set b"
  have "dropWhile (\<lambda>c. c = CHR 0x0A) (rev b) = rev b"
    using a by (cases "rev b") (auto simp: )
  then show ?thesis by (simp add: rstrip_nl_def)
qed

lemma clean_raw:
  assumes "line_ok l"
  shows "clean (rstrip_nl l)"
proof (cases l rule: rev_cases)
  case Nil
  then show ?thesis by (simp add: rstrip_nl_def)
next
  case (snoc b x)
  then have b: "CHR 0x0A \<notin> set b" "CHR 0x0D \<notin> set b" "x \<noteq> CHR 0x0D"
    using assms by (auto simp: line_ok_def)
  show ?thesis
  proof (cases "x = CHR 0x0A")
    case True
    then show ?thesis using rstrip_nl_snoc[OF b(1)] b snoc by (simp add: clean_def)
  next
    case False
    then have "CHR 0x0A \<notin> set l" using b snoc by simp
    from rstrip_nl_id[OF this] show ?thesis using b snoc False by (simp add: clean_def)
  qed
qed

section \<open>The fields of a parsed line\<close>

lemma clean_subset: "clean s \<Longrightarrow> set t \<subseteq> set s \<Longrightarrow> clean t"
  unfolding clean_def by auto

lemma split_three:
  assumes "split_colon 2 s = [nm, st, du]"
  shows "s = nm @ '':'' @ st @ '':'' @ du" "CHR '':'' \<notin> set nm" "CHR '':'' \<notin> set st"
proof -
  have "length (split_colon 2 s) = 3" using assms by simp
  then have "2 \<le> count_list s (CHR '':'')" by (simp add: length_split_colon)
  from split_colon_2[OF this] obtain a b c where
    "split_colon 2 s = [a, b, c]" "s = a @ '':'' @ b @ '':'' @ c"
    "CHR '':'' \<notin> set a" "CHR '':'' \<notin> set b" by blast
  then show "s = nm @ '':'' @ st @ '':'' @ du" "CHR '':'' \<notin> set nm" "CHR '':'' \<notin> set st"
    using assms by simp_all
qed

lemma stripped_literals [simp]:
  "stripped ''OPEN''" "stripped ''DONE''" "stripped ''IN_PROGRESS''"
  by (simp_all add: stripped_def isspace_def)

lemma fields_ok_parsed:
  assumes ni: "\<not> ignored line" and lo: "line_ok line"
    and sp: "split_colon 2 (content_of (rstrip_nl line)) = [nm, st, du]"
  shows "fields_ok \<lparr>name = strip nm,
           status = (if strip st = [] then STATUS_DEFAULT else strip st),
           due = strip du, children = cs, parent = p, depth = d\<rparr>"
proof -
  let ?raw = "rstrip_nl line"
  let ?content = "content_of ?raw"
  note s = split_three[OF sp]
  have cr: "clean ?raw" by (rule clean_raw[OF lo])
  have "set ?content \<subseteq> set ?raw"
    unfolding content_of_def using set_dropWhileD by fastforce
  then have cc: "clean ?content" using cr clean_subset by blast
  have cn: "clean nm" "clean st" "clean du" using cc unfolding s(1) by simp_all
  have sr: "strip ?raw = rstrip ?content" by (simp add: strip_def lstrip_def content_of_def)
  have ne: "?content \<noteq> []" using ni sr by (auto simp: ignored_def rstrip_def)
  then have hc: "\<not> isspace (hd ?content)" unfolding content_of_def by (rule hd_dropWhile)
  from rstrip_hd[OF ne hc] have hr: "strip ?raw \<noteq> []" "hd (strip ?raw) = hd ?content"
    unfolding sr by simp_all
  have nh: "hd ?content \<noteq> CHR ''#''"
    using ni hr by (cases "strip ?raw") (auto simp: ignored_def startswith_hash_def)
  have hn: "hd (strip nm) \<noteq> CHR ''#''" if "strip nm \<noteq> []"
  proof -
    have n: "nm \<noteq> []" using that by (auto simp: strip_def lstrip_def rstrip_def)
    then have "hd nm = hd ?content" unfolding s(1) by simp
    then have "\<not> isspace (hd nm)" using hc by simp
    from strip_hd[OF n this] show ?thesis using \<open>hd nm = hd ?content\<close> nh by simp
  qed
  show ?thesis
    unfolding fields_ok_def
    using stripped_strip strip_colon[OF s(2)] strip_colon[OF s(3)] clean_strip[OF cn(1)]
      clean_strip[OF cn(2)] clean_strip[OF cn(3)] hn
    by (simp add: STATUS_DEFAULT_def)
qed

lemma fields_ok_cong:
  "name c' = name c \<Longrightarrow> status c' = status c \<Longrightarrow> due c' = due c \<Longrightarrow>
     fields_ok c' = fields_ok c"
  by (simp add: fields_ok_def)

section \<open>The fields of the tasks of a parsed forest\<close>

lemma fallD: "fall h \<Longrightarrow> t < length h \<Longrightarrow> fields_ok (h ! t)"
  unfolding fall_def by blast

lemma link_fields_old:
  assumes "p < length h" "u < length h"
  shows "name (link h p c ! u) = name (h ! u)" "due (link h p c ! u) = due (h ! u)"
    "payload (link h p c ! u) = payload (h ! u)"
  using assms by (cases "u = p"; simp add: link_nth_parent link_nth_other payload_def)+

lemma fall_link:
  assumes "fall h" "p < length h" "fields_ok c"
  shows "fall (link h p c)"
  unfolding fall_def
proof (intro allI impI)
  fix t assume "t < length (link h p c)"
  then have "t < Suc (length h)" by simp
  then show "fields_ok (link h p c ! t)"
  proof (cases rule: less_Suc_cases)
    case old
    have "fields_ok (link h p c ! t) = fields_ok (h ! t)"
      by (rule fields_ok_cong)
        (simp_all add: link_fields_old[OF assms(2) old] link_status_old[OF assms(2) old])
    then show ?thesis using fallD[OF assms(1) old] by simp
  next
    case new
    then show ?thesis using assms(2,3) by (simp add: link_nth_new)
  qed
qed

lemma fall_append:
  assumes "fall h" "fields_ok c"
  shows "fall (h @ [c])"
  unfolding fall_def
proof (intro allI impI)
  fix t assume "t < length (h @ [c])"
  then have "t < Suc (length h)" by simp
  then show "fields_ok ((h @ [c]) ! t)"
  proof (cases rule: less_Suc_cases)
    case old
    then show ?thesis using fallD[OF assms(1) old] by (simp add: nth_append)
  next
    case new
    then show ?thesis using assms(2) by simp
  qed
qed

lemma attach_forms:
  assumes i: "pinv s" and a: "attach raw d nm st du s = Inr s'"
  shows "(d = 0 \<and>
           s' = \<lparr>heap = heap s @ [\<lparr>name = nm, status = st, due = du, children = [],
                                     parent = None, depth = 0\<rparr>],
                 tasks = tasks s @ [length (heap s)], stack = [length (heap s)]\<rparr>) \<or>
         (0 < d \<and> d \<le> length (stack s) \<and> stack s ! (d - 1) < length (heap s) \<and>
           s' = \<lparr>heap = link (heap s) (stack s ! (d - 1))
                          \<lparr>name = nm, status = st, due = du, children = [],
                             parent = Some (stack s ! (d - 1)), depth = d\<rparr>,
                 tasks = tasks s, stack = take d (stack s) @ [length (heap s)]\<rparr>)"
proof (cases "d = 0")
  case True
  then show ?thesis using a attach_root[of raw nm st du s] by simp
next
  case False
  then have d: "0 < d" by simp
  have le: "d \<le> length (stack s)"
    using a False by (cases "d \<le> length (stack s)") (simp_all add: attach_def)
  have k: "d - 1 < length (stack s)" using d le by simp
  from stack_okD[OF pinvD(3)[OF i] k] have p: "stack s ! (d - 1) < length (heap s)" by simp
  show ?thesis using a attach_child[OF d le p, of raw nm st du] d le p by simp
qed

lemma fall_attach:
  assumes i: "pinv s" and f: "fall (heap s)"
    and c: "\<And>cs p. fields_ok \<lparr>name = nm, status = st, due = du, children = cs, parent = p,
                                 depth = d\<rparr>"
    and a: "attach raw d nm st du s = Inr s'"
  shows "fall (heap s')"
  using attach_forms[OF i a]
proof (elim disjE conjE)
  assume "d = 0" and s': "s' = \<lparr>heap = heap s @ [\<lparr>name = nm, status = st, due = du,
        children = [], parent = None, depth = 0\<rparr>],
      tasks = tasks s @ [length (heap s)], stack = [length (heap s)]\<rparr>"
  show ?thesis unfolding s' using fall_append[OF f c[of "[]" None]] \<open>d = 0\<close> by simp
next
  assume p: "stack s ! (d - 1) < length (heap s)"
    and s': "s' = \<lparr>heap = link (heap s) (stack s ! (d - 1))
                          \<lparr>name = nm, status = st, due = du, children = [],
                             parent = Some (stack s ! (d - 1)), depth = d\<rparr>,
                 tasks = tasks s, stack = take d (stack s) @ [length (heap s)]\<rparr>"
  show ?thesis unfolding s' using fall_link[OF f p c] by simp
qed

lemma payload_attach:
  assumes i: "pinv s" and a: "attach raw d nm st du s = Inr s'" and j: "j < length (heap s)"
  shows "payload (heap s' ! j) = payload (heap s ! j)"
  using attach_forms[OF i a]
proof (elim disjE conjE)
  assume s': "s' = \<lparr>heap = heap s @ [\<lparr>name = nm, status = st, due = du,
        children = [], parent = None, depth = 0\<rparr>],
      tasks = tasks s @ [length (heap s)], stack = [length (heap s)]\<rparr>"
  show ?thesis unfolding s' using j by (simp add: nth_append)
next
  assume p: "stack s ! (d - 1) < length (heap s)"
    and s': "s' = \<lparr>heap = link (heap s) (stack s ! (d - 1))
                          \<lparr>name = nm, status = st, due = du, children = [],
                             parent = Some (stack s ! (d - 1)), depth = d\<rparr>,
                 tasks = tasks s, stack = take d (stack s) @ [length (heap s)]\<rparr>"
  show ?thesis unfolding s' using link_fields_old(3)[OF p j] by simp
qed

lemma parse_line_cases:
  assumes "parse_line line s = Inr s'"
  shows "(ignored line \<and> s' = s) \<or>
         (\<not> ignored line \<and>
          (\<exists>nm st du. split_colon 2 (content_of (rstrip_nl line)) = [nm, st, du] \<and>
             attach (rstrip_nl line) (depth_of (rstrip_nl line)) (strip nm)
               (if strip st = [] then STATUS_DEFAULT else strip st) (strip du) s = Inr s'))"
proof (cases "ignored line")
  case True
  then show ?thesis using assms parse_line_ignored by simp
next
  case False
  show ?thesis
  proof (cases "length (split_colon 2 (content_of (rstrip_nl line))) = 3")
    case True
    then obtain nm st du where sp: "split_colon 2 (content_of (rstrip_nl line)) = [nm, st, du]"
      by (auto simp: length_Suc_conv numeral_3_eq_3)
    from parse_line_fields[OF False sp, of s] assms sp False show ?thesis by auto
  next
    case False2: False
    from parse_line_invalid[OF False False2, of s] assms show ?thesis by simp
  qed
qed

lemma fall_parse_line:
  assumes i: "pinv s" and f: "fall (heap s)" and lo: "line_ok line"
    and a: "parse_line line s = Inr s'"
  shows "fall (heap s')"
  using parse_line_cases[OF a]
proof (elim disjE conjE exE)
  assume "s' = s"
  then show ?thesis using f by simp
next
  fix nm st du
  assume ni: "\<not> ignored line"
    and sp: "split_colon 2 (content_of (rstrip_nl line)) = [nm, st, du]"
    and at: "attach (rstrip_nl line) (depth_of (rstrip_nl line)) (strip nm)
               (if strip st = [] then STATUS_DEFAULT else strip st) (strip du) s = Inr s'"
  show ?thesis by (rule fall_attach[OF i f fields_ok_parsed[OF ni lo sp] at])
qed

lemma length_parse_line:
  assumes i: "pinv s" and a: "parse_line line s = Inr s'"
  shows "length (heap s) \<le> length (heap s')"
  using parse_line_cases[OF a] attach_new_task(1) by fastforce

lemma payload_parse_line:
  assumes i: "pinv s" and a: "parse_line line s = Inr s'" and j: "j < length (heap s)"
  shows "payload (heap s' ! j) = payload (heap s ! j)"
  using parse_line_cases[OF a]
proof (elim disjE conjE exE)
  assume "s' = s"
  then show ?thesis by simp
next
  fix nm st du
  assume "attach (rstrip_nl line) (depth_of (rstrip_nl line)) (strip nm)
               (if strip st = [] then STATUS_DEFAULT else strip st) (strip du) s = Inr s'"
  from payload_attach[OF i this j] show ?thesis .
qed

lemma parse_lines_keeps:
  "pinv s \<Longrightarrow> parse_lines ls s = Inr s' \<Longrightarrow>
     length (heap s) \<le> length (heap s') \<and>
     (\<forall>j<length (heap s). payload (heap s' ! j) = payload (heap s ! j))"
proof (induction ls arbitrary: s)
  case Nil
  then show ?case by simp
next
  case (Cons l ls)
  from Cons.prems(2) obtain s1 where s1: "parse_line l s = Inr s1" "parse_lines ls s1 = Inr s'"
    by (auto split: sum.splits)
  note i1 = pinv_parse_line[OF Cons.prems(1) s1(1)]
  note le = length_parse_line[OF Cons.prems(1) s1(1)]
  from Cons.IH[OF i1 s1(2)] have ih: "length (heap s1) \<le> length (heap s')"
    "\<forall>j<length (heap s1). payload (heap s' ! j) = payload (heap s1 ! j)" by simp_all
  have "payload (heap s' ! j) = payload (heap s ! j)" if "j < length (heap s)" for j
  proof -
    have "j < length (heap s1)" using that le by simp
    then show ?thesis using ih(2) payload_parse_line[OF Cons.prems(1) s1(1) that] by simp
  qed
  then show ?case using le ih(1) by simp
qed

lemma fall_parse_lines:
  "pinv s \<Longrightarrow> fall (heap s) \<Longrightarrow> \<forall>l\<in>set ls. line_ok l \<Longrightarrow> parse_lines ls s = Inr s' \<Longrightarrow>
     fall (heap s')"
proof (induction ls arbitrary: s)
  case Nil
  then show ?case by simp
next
  case (Cons l ls)
  from Cons.prems(4) obtain s1 where s1: "parse_line l s = Inr s1" "parse_lines ls s1 = Inr s'"
    by (auto split: sum.splits)
  have lo: "line_ok l" "\<forall>l\<in>set ls. line_ok l" using Cons.prems(3) by simp_all
  note i1 = pinv_parse_line[OF Cons.prems(1) s1(1)]
  note f1 = fall_parse_line[OF Cons.prems(1,2) lo(1) s1(1)]
  from Cons.IH[OF i1 f1 lo(2) s1(2)] show ?case .
qed

lemma derived_status_literal:
  "derived_status ss = ''DONE'' \<or> derived_status ss = ''OPEN'' \<or>
   derived_status ss = ''IN_PROGRESS''"
  by (simp add: derived_status_def)

lemma fall_walked:
  assumes f: "fall g" and w: "walked g [0..<length g] g h"
  shows "fall h"
  unfolding fall_def
proof (intro allI impI)
  fix t assume "t < length h"
  then have t: "t < length g" using same_shape_length[OF walkedD(1)[OF w]] by simp
  then have tx: "t \<in> set [0..<length g]" by simp
  note fs = same_shape_fields[OF walkedD(1)[OF w] t]
  show "fields_ok (h ! t)"
  proof (cases "children (g ! t) = []")
    case True
    from walkedD(3)[OF w tx True] fallD[OF f t] show ?thesis by simp
  next
    case False
    then have "status (h ! t) = derived_status (child_statuses h t)"
      using walkedD(4)[OF w tx] fs(1) by (simp add: ok_def)
    then have "status (h ! t) = ''DONE'' \<or> status (h ! t) = ''OPEN'' \<or>
               status (h ! t) = ''IN_PROGRESS''"
      using derived_status_literal by simp
    then show ?thesis
      using fallD[OF f t] fs(4,5) unfolding fields_ok_def by (auto simp: clean_def)
  qed
qed

lemma fall_initial: "fall (heap initial)"
  by (simp add: fall_def initial_def)

lemma fall_parse_text:
  assumes "parse_text body = Some (Inr F)"
  shows "fall (store F)"
proof -
  from parse_text_walked[OF assms] obtain s where s:
    "parse_lines (readlines body) initial = Inr s" "cinv s"
    "walked (heap s) [0..<length (heap s)] (heap s) (store F)" by blast
  have "fall (heap s)"
    by (rule fall_parse_lines[OF pinv_initial fall_initial readlines_ok s(1)])
  from fall_walked[OF this s(3)] show ?thesis .
qed

section \<open>Statuses\<close>

lemma lnzD: "lnz h \<Longrightarrow> u < length h \<Longrightarrow> children (h ! u) = [] \<Longrightarrow> status (h ! u) \<noteq> []"
  unfolding lnz_def by blast

lemma next_status_in_cycle: "next_status s \<in> set STATUS_CYCLE"
  unfolding next_status_def by (rule nth_mem) (simp add: STATUS_CYCLE_def)

lemma next_status_nonempty: "next_status s \<noteq> []"
  using next_status_in_cycle[of s] by (auto simp: STATUS_CYCLE_def)

lemma derived_status_in_cycle: "derived_status ss \<in> set STATUS_CYCLE"
  using derived_status_literal[of ss] by (auto simp: STATUS_CYCLE_def)

lemma finv_interior_status:
  assumes "finv F" "t < length (store F)" "children (store F ! t) \<noteq> []"
  shows "status (store F ! t) \<in> set STATUS_CYCLE"
  using finvD(3)[OF assms(1,2)] assms(3) derived_status_in_cycle by (simp add: ok_def)

lemma lnz_parse_text:
  assumes "parse_text body = Some (Inr F)"
  shows "lnz (store F)"
  unfolding lnz_def using fallD[OF fall_parse_text[OF assms]] by (simp add: fields_ok_def)

lemma lnz_parse:
  assumes "parse_tasks_from_file fs path = Some (Inr F)"
  shows "lnz (store F)"
  using parse_file_cases[OF assms] lnz_parse_text
  by (auto simp: empty_forest_def lnz_def)

lemma lnz_toggle:
  assumes i: "finv F" and z: "lnz (store F)" and a: "action_toggle_status sel F = Some F'"
  shows "lnz (store F')"
proof -
  from get_selected_task_total[OF finvD(1)[OF i], of sel] obtain r where
    r: "get_selected_task sel F = Some r" by blast
  show ?thesis
  proof (cases r)
    case None
    then show ?thesis using toggle_nothing[of sel F] r a z by simp
  next
    case (Some t)
    show ?thesis
    proof (cases "children (store F ! t) = []")
      case False
      then show ?thesis using toggle_interior[of sel F t] r Some a z by simp
    next
      case True
      from toggle_leaf[OF i r[unfolded Some] True] obtain h2 where h2:
        "action_toggle_status sel F = Some (F\<lparr>store := h2\<rparr>)"
        "map shape h2 = map shape (store F)"
        "h2 ! t = (store F ! t)\<lparr>status := next_status (status (store F ! t))\<rparr>"
        "\<forall>u<length (store F). u \<noteq> t \<longrightarrow> children (store F ! u) = [] \<longrightarrow>
           h2 ! u = store F ! u"
        by blast
      have F': "store F' = h2" using a h2(1) by auto
      have "status (h2 ! u) \<noteq> []" if u: "u < length h2" "children (h2 ! u) = []" for u
      proof -
        have ul: "u < length (store F)" using u(1) same_shape_length[OF h2(2)] by simp
        have cu: "children (store F ! u) = []"
          using same_shape_fields(1)[OF h2(2) ul] u(2) by simp
        show ?thesis
        proof (cases "u = t")
          case True
          then show ?thesis using h2(3) next_status_nonempty by simp
        next
          case False
          then have "h2 ! u = store F ! u" using h2(4) ul cu by blast
          then show ?thesis using lnzD[OF z ul cu] by simp
        qed
      qed
      then show ?thesis unfolding F' lnz_def by blast
    qed
  qed
qed

lemma lnz_add:
  assumes i: "finv F" and z: "lnz (store F)"
    and p: "par = None \<or> (\<exists>p. par = Some p \<and> p < length (store F))"
    and a: "add_subtask_worker par result F = Some F'"
  shows "lnz (store F')"
proof (cases result)
  case None
  then show ?thesis using a z add_cancel by simp
next
  case (Some r)
  obtain nm du where r: "r = (nm, du)" by (cases r)
  let ?n = "length (store F)"
  show ?thesis
  proof (cases par)
    case None
    from add_root[OF i, of nm du] obtain h2 where h2:
      "add_subtask_worker None (Some (nm, du)) F =
         Some \<lparr>store = h2, roots = roots F @ [?n]\<rparr>"
      "length h2 = Suc ?n"
      "h2 ! ?n = \<lparr>name = nm, status = ''OPEN'', due = du, children = [], parent = None,
                   depth = 0\<rparr>"
      "\<forall>u<?n. children (h2 ! u) = children (store F ! u) \<and>
              (children (store F ! u) = [] \<longrightarrow> h2 ! u = store F ! u)"
      by blast
    have F': "store F' = h2" using a h2(1) unfolding Some r None by auto
    have "status (h2 ! u) \<noteq> []" if u: "u < length h2" "children (h2 ! u) = []" for u
    proof -
      from u(1) have "u < Suc ?n" using h2(2) by simp
      then show ?thesis
      proof (cases rule: less_Suc_cases)
        case old
        then have "children (store F ! u) = []" "h2 ! u = store F ! u"
          using h2(4) u(2) by auto
        then show ?thesis using lnzD[OF z old] by simp
      next
        case new
        then show ?thesis using h2(3) by simp
      qed
    qed
    then show ?thesis unfolding F' lnz_def by blast
  next
    case (Some q)
    then have q: "q < ?n" using p by simp
    from add_child[OF i q, of nm du] obtain h3 where h3:
      "add_subtask_worker (Some q) (Some (nm, du)) F = Some \<lparr>store = h3, roots = roots F\<rparr>"
      "length h3 = Suc ?n"
      "h3 ! ?n = \<lparr>name = nm, status = ''OPEN'', due = du, children = [], parent = Some q,
                   depth = depth (store F ! q) + 1\<rparr>"
      "children (h3 ! q) = children (store F ! q) @ [?n]"
      "\<forall>u<?n. u \<noteq> q \<longrightarrow> children (h3 ! u) = children (store F ! u) \<and>
              (children (store F ! u) = [] \<longrightarrow> h3 ! u = store F ! u)"
      by blast
    have F': "store F' = h3" using a h3(1) unfolding \<open>result = Some r\<close> r Some by auto
    have "status (h3 ! u) \<noteq> []" if u: "u < length h3" "children (h3 ! u) = []" for u
    proof -
      from u(1) have "u < Suc ?n" using h3(2) by simp
      then show ?thesis
      proof (cases rule: less_Suc_cases)
        case old
        have "u \<noteq> q" using h3(4) u(2) by auto
        then have "children (store F ! u) = []" "h3 ! u = store F ! u"
          using h3(5) old u(2) by auto
        then show ?thesis using lnzD[OF z old] by simp
      next
        case new
        then show ?thesis using h3(3) by simp
      qed
    qed
    then show ?thesis unfolding F' lnz_def by blast
  qed
qed

lemma lnz_reachable: "reachable F \<Longrightarrow> lnz (store F)"
proof (induction rule: reachable.induct)
  case (mount fs path F)
  then show ?case by (rule lnz_parse)
next
  case (toggle F sel F')
  then show ?case using lnz_toggle[OF finv_reachable] by blast
next
  case (add F par result F')
  then show ?case using lnz_add[OF finv_reachable] by blast
qed

lemma status_nonempty:
  assumes "finv F" "lnz (store F)" "t < length (store F)"
  shows "status (store F ! t) \<noteq> []"
proof (cases "children (store F ! t) = []")
  case True
  then show ?thesis using lnzD[OF assms(2,3)] by simp
next
  case False
  from finv_interior_status[OF assms(1,3) False] show ?thesis by (auto simp: STATUS_CYCLE_def)
qed

section \<open>Parsing a line that was written by the save\<close>

lemma take_drop_colon:
  assumes "CHR '':'' \<notin> set a"
  shows "takeWhile (\<lambda>c. c \<noteq> CHR '':'') (a @ CHR '':'' # b) = a"
    and "dropWhile (\<lambda>c. c \<noteq> CHR '':'') (a @ CHR '':'' # b) = CHR '':'' # b"
proof -
  have a: "\<And>x. x \<in> set a \<Longrightarrow> x \<noteq> CHR '':''" using assms by auto
  show "takeWhile (\<lambda>c. c \<noteq> CHR '':'') (a @ CHR '':'' # b) = a"
    using takeWhile_append2[of a "\<lambda>c. c \<noteq> CHR '':''" "CHR '':'' # b"] a by simp
  show "dropWhile (\<lambda>c. c \<noteq> CHR '':'') (a @ CHR '':'' # b) = CHR '':'' # b"
    using dropWhile_append2[of a "\<lambda>c. c \<noteq> CHR '':''" "CHR '':'' # b"] a by simp
qed

lemma split_colon_fields:
  assumes "CHR '':'' \<notin> set a" "CHR '':'' \<notin> set b"
  shows "split_colon 2 (a @ '':'' @ b @ '':'' @ c) = [a, b, c]"
proof -
  have 1: "split_colon 2 (a @ CHR '':'' # b @ CHR '':'' # c) =
             a # split_colon 1 (b @ CHR '':'' # c)"
    using take_drop_colon[OF assms(1), of "b @ CHR '':'' # c"]
    by (simp add: numeral_2_eq_2)
  have 2: "split_colon 1 (b @ CHR '':'' # c) = [b, c]"
    using take_drop_colon[OF assms(2), of c] by simp
  show ?thesis using 1 2 by simp
qed

lemma expand_tabs_spaces: "expand_tabs (replicate k (CHR '' '')) = replicate k (CHR '' '')"
  by (induction k) (simp_all add: expand_tabs_def)

lemma parse_task_line:
  assumes f: "fields_ok c"
  shows "parse_line (task_line c @ [CHR 0x0A]) s =
           attach (task_line c) (depth c) (name c) (status c) (due c) s"
proof -
  let ?sp = "replicate (4 * depth c) (CHR '' '')"
  let ?rest = "name c @ '':'' @ status c @ '':'' @ due c"
  let ?raw = "task_line c"
  have raw: "?raw = ?sp @ ?rest" by (simp add: task_line_def)
  have cl: "clean ?raw" using f unfolding raw by (simp add: fields_ok_def)
  then have rn: "rstrip_nl (?raw @ [CHR 0x0A]) = ?raw"
    by (intro rstrip_nl_snoc) (simp add: clean_def)
  have ne: "?rest \<noteq> []" by simp
  have hr: "hd ?rest = (if name c = [] then CHR '':'' else hd (name c))" by simp
  have hs: "\<not> isspace (hd ?rest)" using f unfolding hr by (auto simp: fields_ok_def stripped_def)
  have hh: "hd ?rest \<noteq> CHR ''#''" using f unfolding hr by (simp add: fields_ok_def)
  have dr: "dropWhile isspace ?rest = ?rest" using hs ne by (cases ?rest) simp_all
  have tr: "takeWhile isspace ?rest = []" using hs ne by (cases ?rest) simp_all
  have sps: "\<And>x. x \<in> set ?sp \<Longrightarrow> isspace x" by simp
  have content: "content_of ?raw = ?rest"
    unfolding raw content_of_def
    using dropWhile_append2[of ?sp isspace ?rest] sps dr by simp
  have indent: "indent_of ?raw = ?sp"
    unfolding raw indent_of_def
    using takeWhile_append2[of ?sp isspace ?rest] sps tr by simp
  have depth: "depth_of ?raw = depth c"
    unfolding depth_of_def indent by (simp add: expand_tabs_spaces)
  have sr: "strip ?raw = rstrip ?rest"
    using content by (simp add: strip_def lstrip_def content_of_def)
  from rstrip_hd[OF ne hs] have "strip ?raw \<noteq> []" "hd (strip ?raw) \<noteq> CHR ''#''"
    unfolding sr using hh by simp_all
  then have ni: "\<not> ignored (?raw @ [CHR 0x0A])"
    unfolding ignored_def rn by (cases "strip ?raw") (simp_all add: startswith_hash_def)
  have sp: "split_colon 2 (content_of (rstrip_nl (?raw @ [CHR 0x0A]))) =
              [name c, status c, due c]"
    unfolding rn content using f by (intro split_colon_fields) (simp_all add: fields_ok_def)
  have id: "strip (name c) = name c" "strip (status c) = status c" "strip (due c) = due c"
    "status c \<noteq> []"
    using f by (simp_all add: fields_ok_def strip_id)
  show ?thesis
    unfolding parse_line_fields[OF ni sp] rn depth id using id(4) by simp
qed

section \<open>Reading the lines that were written by the save\<close>

lemma split_lines_line:
  "CHR 0x0A \<notin> set l \<Longrightarrow>
     split_lines cur (l @ CHR 0x0A # rest) = (cur @ l @ [CHR 0x0A]) # split_lines [] rest"
  by (induction l arbitrary: cur) auto

lemma split_lines_join:
  assumes "\<forall>l\<in>set ls. CHR 0x0A \<notin> set l" "ls \<noteq> []"
  shows "split_lines [] (join_nl ls @ [CHR 0x0A]) = map (\<lambda>l. l @ [CHR 0x0A]) ls"
  using assms
proof (induction ls rule: join_nl.induct)
  case 1
  then show ?case by simp
next
  case (2 l)
  then show ?case using split_lines_line[of l "[]" "[]"] by simp
next
  case (3 l m ls)
  have "split_lines [] (l @ CHR 0x0A # (join_nl (m # ls) @ [CHR 0x0A])) =
          (l @ [CHR 0x0A]) # split_lines [] (join_nl (m # ls) @ [CHR 0x0A])"
    using split_lines_line[of l "[]"] 3 by simp
  then show ?case using 3 by simp
qed

lemma join_nl_no_cr:
  "\<forall>l\<in>set ls. CHR 0x0D \<notin> set l \<Longrightarrow> CHR 0x0D \<notin> set (join_nl ls)"
  by (induction ls rule: join_nl.induct) simp_all

lemma readlines_join:
  assumes "\<forall>l\<in>set ls. clean l" "ls \<noteq> []"
  shows "readlines (join_nl ls @ [CHR 0x0A]) = map (\<lambda>l. l @ [CHR 0x0A]) ls"
proof -
  have "CHR 0x0D \<notin> set (join_nl ls @ [CHR 0x0A])"
    using join_nl_no_cr[of ls] assms(1) by (simp add: clean_def)
  then have "universal_newlines (join_nl ls @ [CHR 0x0A]) = join_nl ls @ [CHR 0x0A]"
    by (rule universal_newlines_id)
  then show ?thesis
    unfolding readlines_def using split_lines_join[of ls] assms by (simp add: clean_def)
qed

lemma readlines_empty_save: "readlines (join_nl [] @ [CHR 0x0A]) = [[CHR 0x0A]]"
  by (simp add: readlines_def)

lemma ignored_blank: "ignored [CHR 0x0A]"
  by (simp add: ignored_def rstrip_nl_def strip_def lstrip_def rstrip_def)

lemma clean_task_line: "fields_ok c \<Longrightarrow> clean (task_line c)"
  by (simp add: task_line_def fields_ok_def)

section \<open>A store with the statuses of another\<close>

lemma length_restat: "length g \<le> length h \<Longrightarrow> length (restat h g) = length g"
  by (simp add: restat_def)

lemma restat_nth:
  "j < length g \<Longrightarrow> length g \<le> length h \<Longrightarrow>
     restat h g ! j = (g ! j)\<lparr>status := status (h ! j)\<rparr>"
  by (simp add: restat_def)

lemma restat_append:
  assumes "length g < length h"
  shows "restat h (g @ [c]) = restat h g @ [c\<lparr>status := status (h ! length g)\<rparr>]"
proof (rule nth_equalityI)
  show "length (restat h (g @ [c])) =
          length (restat h g @ [c\<lparr>status := status (h ! length g)\<rparr>])"
    using assms by (simp add: length_restat)
next
  fix j assume "j < length (restat h (g @ [c]))"
  then have "j < Suc (length g)" using assms by (simp add: length_restat)
  then show "restat h (g @ [c]) ! j =
               (restat h g @ [c\<lparr>status := status (h ! length g)\<rparr>]) ! j"
  proof (cases rule: less_Suc_cases)
    case old
    then show ?thesis using assms by (simp add: restat_nth nth_append length_restat)
  next
    case new
    then show ?thesis using assms by (simp add: restat_nth nth_append length_restat)
  qed
qed

lemma restat_link:
  assumes p: "p < length g" and l: "length g < length h"
  shows "restat h (link g p c) = link (restat h g) p (c\<lparr>status := status (h ! length g)\<rparr>)"
proof (rule nth_equalityI)
  show "length (restat h (link g p c)) =
          length (link (restat h g) p (c\<lparr>status := status (h ! length g)\<rparr>))"
    using l by (simp add: length_restat)
next
  fix j assume "j < length (restat h (link g p c))"
  then have j: "j < Suc (length g)" using l by (simp add: length_restat)
  have lr: "length (restat h g) = length g" using l by (simp add: length_restat)
  have pr: "p < length (restat h g)" using p lr by simp
  have e: "restat h (link g p c) ! j = (link g p c ! j)\<lparr>status := status (h ! j)\<rparr>"
    using j l by (simp add: restat_nth)
  from j show "restat h (link g p c) ! j =
                 link (restat h g) p (c\<lparr>status := status (h ! length g)\<rparr>) ! j"
  proof (cases rule: less_Suc_cases)
    case old
    show ?thesis
    proof (cases "j = p")
      case True
      show ?thesis unfolding e True
        using p l link_nth_parent[OF p, of c] link_nth_parent[OF pr] lr
        by (simp add: restat_nth)
    next
      case False
      have jr: "j < length (restat h g)" using old lr by simp
      show ?thesis unfolding e
        using link_nth_other[OF old False, of c] link_nth_other[OF jr False] old l
        by (simp add: restat_nth)
    qed
  next
    case new
    have "restat h (link g p c) ! length g =
            (link g p c ! length g)\<lparr>status := status (h ! length g)\<rparr>"
      using e new by simp
    then show ?thesis unfolding new
      using link_nth_new[OF p, of c] link_nth_new[OF pr] lr by simp
  qed
qed

lemma restat_same:
  assumes "map shape h = map shape g"
  shows "restat h g = h"
proof (rule nth_equalityI)
  have l: "length h = length g" by (rule same_shape_length[OF assms])
  then show "length (restat h g) = length h" by (simp add: length_restat)
  fix j assume "j < length (restat h g)"
  then have j: "j < length g" using l by (simp add: length_restat)
  from same_shape_nth[OF assms j] have "shape (h ! j) = shape (g ! j)" .
  then have "(g ! j)\<lparr>status := status (h ! j)\<rparr> = h ! j"
    by (cases "g ! j", cases "h ! j") (simp add: shape_def)
  then show "restat h g ! j = h ! j" using j l by (simp add: restat_nth)
qed

lemma attach_restat:
  assumes i: "pinv s" and a: "attach raw d nm st du s = Inr s'"
    and l: "length (heap s) < length h"
  shows "attach raw2 d nm (status (h ! length (heap s))) du
           \<lparr>heap = restat h (heap s), tasks = tasks s, stack = stack s\<rparr> =
         Inr \<lparr>heap = restat h (heap s'), tasks = tasks s', stack = stack s'\<rparr>"
  using attach_forms[OF i a]
proof (elim disjE conjE)
  let ?r = "\<lparr>heap = restat h (heap s), tasks = tasks s, stack = stack s\<rparr>"
  have lr: "length (restat h (heap s)) = length (heap s)" using l by (simp add: length_restat)
  {
    assume d: "d = 0"
      and s': "s' = \<lparr>heap = heap s @ [\<lparr>name = nm, status = st, due = du,
          children = [], parent = None, depth = 0\<rparr>],
        tasks = tasks s @ [length (heap s)], stack = [length (heap s)]\<rparr>"
    show ?thesis
      unfolding d s' using attach_root[of raw2 nm "status (h ! length (heap s))" du ?r] lr
      by (simp add: restat_append[OF l])
  }
  {
    assume d: "0 < d" "d \<le> length (stack s)" and p: "stack s ! (d - 1) < length (heap s)"
      and s': "s' = \<lparr>heap = link (heap s) (stack s ! (d - 1))
                          \<lparr>name = nm, status = st, due = du, children = [],
                             parent = Some (stack s ! (d - 1)), depth = d\<rparr>,
                 tasks = tasks s, stack = take d (stack s) @ [length (heap s)]\<rparr>"
    define q where "q = stack s ! (d - 1)"
    have q: "q < length (heap s)" "stack ?r ! (d - 1) = q" using p by (simp_all add: q_def)
    have hs: "heap s' = link (heap s) q
                \<lparr>name = nm, status = st, due = du, children = [], parent = Some q,
                   depth = d\<rparr>"
      "tasks s' = tasks s" "stack s' = take d (stack s) @ [length (heap s)]"
      unfolding s' q_def by simp_all
    have pr: "stack ?r ! (d - 1) < length (heap ?r)" using p lr by simp
    have dr: "d \<le> length (stack ?r)" using d(2) by simp
    have "attach raw2 d nm (status (h ! length (heap s))) du ?r =
            Inr \<lparr>heap = link (heap ?r) (stack ?r ! (d - 1))
                          \<lparr>name = nm, status = status (h ! length (heap s)), due = du,
                             children = [], parent = Some (stack ?r ! (d - 1)), depth = d\<rparr>,
                 tasks = tasks ?r, stack = take d (stack ?r) @ [length (heap ?r)]\<rparr>"
      by (rule attach_child[OF d(1) dr pr])
    then have "attach raw2 d nm (status (h ! length (heap s))) du ?r =
            Inr \<lparr>heap = link (restat h (heap s)) q
                          \<lparr>name = nm, status = status (h ! length (heap s)), due = du,
                             children = [], parent = Some q, depth = d\<rparr>,
                 tasks = tasks s, stack = take d (stack s) @ [length (heap s)]\<rparr>"
      unfolding q(2) using lr by simp
    then show ?thesis unfolding hs using restat_link[OF q(1) l] by simp
  }
qed

section \<open>Parsing what the save wrote\<close>

lemma payload_eq_fields:
  assumes "payload a = payload b"
  shows "name a = name b" "due a = due b" "depth a = depth b"
  using assms by (cases a, cases b, simp add: payload_def)+

lemma reparse:
  assumes "pinv s0" "parse_lines ls s0 = Inr s"
    and sh: "map shape h = map shape (heap s)" and fh: "fall h"
  shows "parse_lines
           (map (\<lambda>j. task_line (h ! j) @ [CHR 0x0A]) [length (heap s0)..<length (heap s)])
           \<lparr>heap = restat h (heap s0), tasks = tasks s0, stack = stack s0\<rparr> =
         Inr \<lparr>heap = restat h (heap s), tasks = tasks s, stack = stack s\<rparr>"
  using assms(1,2)
proof (induction ls arbitrary: s0)
  case Nil
  then show ?case by simp
next
  case (Cons l ls)
  from Cons.prems(2) obtain s1 where s1: "parse_line l s0 = Inr s1" "parse_lines ls s1 = Inr s"
    by (auto split: sum.splits)
  note i1 = pinv_parse_line[OF Cons.prems(1) s1(1)]
  note ih = Cons.IH[OF i1 s1(2)]
  note keep = parse_lines_keeps[OF i1 s1(2)]
  have lh: "length h = length (heap s)" by (rule same_shape_length[OF sh])
  from parse_line_cases[OF s1(1)] show ?case
  proof (elim disjE conjE exE)
    assume "s1 = s0"
    then show ?thesis using ih by simp
  next
    fix nm st du
    assume at: "attach (rstrip_nl l) (depth_of (rstrip_nl l)) (strip nm)
               (if strip st = [] then STATUS_DEFAULT else strip st) (strip du) s0 = Inr s1"
    let ?k = "length (heap s0)"
    let ?n = "length (heap s)"
    let ?r0 = "\<lparr>heap = restat h (heap s0), tasks = tasks s0, stack = stack s0\<rparr>"
    let ?r1 = "\<lparr>heap = restat h (heap s1), tasks = tasks s1, stack = stack s1\<rparr>"
    note new = attach_new_task[OF at]
    have k1: "?k < length (heap s1)" using new(1) by simp
    then have kn: "?k < ?n" using keep by simp
    then have kh: "?k < length h" using lh by simp
    have pe: "payload (heap s ! ?k) = payload (heap s1 ! ?k)" using keep k1 by blast
    note sf = same_shape_fields[OF sh kn]
    have nm: "name (h ! ?k) = strip nm"
      using sf(4) payload_eq_fields(1)[OF pe] new(2) by simp
    have du: "due (h ! ?k) = strip du"
      using sf(5) payload_eq_fields(2)[OF pe] new(4) by simp
    have dp: "depth (h ! ?k) = depth_of (rstrip_nl l)"
      using sf(3) payload_eq_fields(3)[OF pe] new(5) by simp
    have "parse_line (task_line (h ! ?k) @ [CHR 0x0A]) ?r0 =
            attach (task_line (h ! ?k)) (depth (h ! ?k)) (name (h ! ?k)) (status (h ! ?k))
              (due (h ! ?k)) ?r0"
      by (rule parse_task_line[OF fallD[OF fh kh]])
    also have "\<dots> = attach (task_line (h ! ?k)) (depth_of (rstrip_nl l)) (strip nm)
              (status (h ! ?k)) (strip du) ?r0"
      unfolding nm du dp ..
    also have "\<dots> = Inr ?r1" by (rule attach_restat[OF Cons.prems(1) at kh])
    finally have first: "parse_line (task_line (h ! ?k) @ [CHR 0x0A]) ?r0 = Inr ?r1" .
    have up: "[?k..<?n] = ?k # [length (heap s1)..<?n]"
      using kn new(1) by (simp add: upt_conv_Cons)
    show ?thesis unfolding up using first ih by simp
  qed
qed

lemma reparse_all:
  assumes p: "parse_lines ls initial = Inr s"
    and sh: "map shape h = map shape (heap s)" and fh: "fall h"
  shows "parse_lines (map (\<lambda>j. task_line (h ! j) @ [CHR 0x0A]) [0..<length h]) initial =
           Inr \<lparr>heap = h, tasks = tasks s, stack = stack s\<rparr>"
proof -
  have i: "restat h (heap initial) = []" "length (heap initial) = 0"
    by (simp_all add: initial_def restat_def)
  have e: "\<lparr>heap = restat h (heap initial), tasks = tasks initial, stack = stack initial\<rparr> =
           initial" by (simp add: initial_def restat_def)
  from reparse[OF pinv_initial p sh fh] show ?thesis
    unfolding e i(2) restat_same[OF sh] same_shape_length[OF sh] .
qed

section \<open>Walking a store whose statuses are already derived\<close>

lemma walked_fixed:
  assumes w: "wf_store h rs" and a: "\<forall>u<length h. ok h u"
    and wk: "walked h [0..<length h] h h'"
  shows "h' = h"
proof -
  note sh = walkedD(1)[OF wk]
  have len: "length h' = length h" by (rule same_shape_length[OF sh])
  have st: "status (h' ! u) = status (h ! u)" if "u < length h" for u
    using that
  proof (induction "length h - u" arbitrary: u rule: less_induct)
    case less
    have ux: "u \<in> set [0..<length h]" using less.prems by simp
    show ?case
    proof (cases "children (h ! u) = []")
      case True
      from walkedD(3)[OF wk ux True] show ?thesis by simp
    next
      case False
      have ch: "children (h' ! u) = children (h ! u)"
        by (rule same_shape_fields(1)[OF sh less.prems])
      have "status (h' ! c) = status (h ! c)" if "c \<in> set (children (h ! u))" for c
      proof -
        from wf_child[OF w less.prems that] have "u < c" "c < length h" by simp_all
        then show ?thesis using less.hyps[of c] by simp
      qed
      then have cs: "child_statuses h' u = child_statuses h u"
        unfolding child_statuses_def ch by simp
      have "status (h' ! u) = derived_status (child_statuses h' u)"
        using walkedD(4)[OF wk ux] False ch by (simp add: ok_def)
      moreover have "status (h ! u) = derived_status (child_statuses h u)"
        using a less.prems False by (auto simp: ok_def)
      ultimately show ?thesis using cs by simp
    qed
  qed
  show ?thesis
  proof (rule nth_equalityI)
    show "length h' = length h" by (rule len)
    fix j assume "j < length h'"
    then have j: "j < length h" using len by simp
    from same_shape_nth[OF sh j] st[OF j] show "h' ! j = h ! j"
      by (cases "h' ! j", cases "h ! j") (simp add: shape_def)
  qed
qed

section \<open>Saving and loading again\<close>

lemma flatten_parsed:
  assumes "parse_text body = Some (Inr F)"
  shows "flatten_tasks F = Some [0..<length (store F)]"
    and "travs (store F) (roots F) [0..<length (store F)]"
proof -
  from parse_text_walked[OF assms] obtain s where s:
    "cinv s" "roots F = tasks s"
    "walked (heap s) [0..<length (heap s)] (heap s) (store F)" by blast
  note sh = walkedD(1)[OF s(3)]
  have len: "length (store F) = length (heap s)" by (rule same_shape_length[OF sh])
  have "travs (store F) (tasks s) [0..<length (heap s)]"
  proof (rule travs_frame[OF cinvD(3)[OF s(1)]])
    fix u assume "u \<in> set [0..<length (heap s)]"
    then have "u < length (heap s)" by simp
    from same_shape_fields(1)[OF sh this]
    show "children (store F ! u) = children (heap s ! u)" .
  qed
  then show t: "travs (store F) (roots F) [0..<length (store F)]" unfolding s(2) len .
  from travs_flatten_walk[OF t, of "length (store F)" "[]"]
  show "flatten_tasks F = Some [0..<length (store F)]" by (simp add: flatten_tasks_def)
qed

lemma save_text_parsed:
  assumes "parse_text body = Some (Inr F)"
  shows "save_text F =
           Some (join_nl (map (\<lambda>t. task_line (store F ! t)) [0..<length (store F)]) @
                 [CHR 0x0A])"
  by (simp add: save_text_def flatten_parsed(1)[OF assms])

lemma roundtrip_text:
  assumes p: "parse_text body = Some (Inr F)"
  shows "parse_text (join_nl (map (\<lambda>t. task_line (store F ! t)) [0..<length (store F)]) @
                     [CHR 0x0A]) = Some (Inr F)"
proof -
  let ?h = "store F"
  let ?n = "length ?h"
  let ?ls = "map (\<lambda>t. task_line (?h ! t)) [0..<?n]"
  let ?saved = "join_nl ?ls @ [CHR 0x0A]"
  from parse_text_walked[OF p] obtain s where s:
    "parse_lines (readlines body) initial = Inr s" "cinv s" "roots F = tasks s"
    "walked (heap s) [0..<length (heap s)] (heap s) ?h" by blast
  note sh = walkedD(1)[OF s(4)]
  note fh = fall_parse_text[OF p]
  note i = finv_parse_text[OF p]
  let ?s2 = "\<lparr>heap = ?h, tasks = tasks s, stack = stack s\<rparr>"
  from reparse_all[OF s(1) sh fh]
  have re: "parse_lines (map (\<lambda>j. task_line (?h ! j) @ [CHR 0x0A]) [0..<?n]) initial = Inr ?s2" .
  have lines: "parse_lines (readlines ?saved) initial = Inr ?s2"
  proof (cases "?n = 0")
    case True
    then have "readlines ?saved = [[CHR 0x0A]]" by (simp add: readlines_def)
    then have "parse_lines (readlines ?saved) initial = Inr initial"
      using parse_line_ignored[OF ignored_blank] by simp
    moreover have "Inr initial = (Inr ?s2 :: error + pstate)" using re True by simp
    ultimately show ?thesis by simp
  next
    case False
    have cl: "\<forall>l\<in>set ?ls. clean l" using fallD[OF fh] clean_task_line by auto
    have ne: "?ls \<noteq> []" using False by simp
    have "readlines ?saved = map (\<lambda>l. l @ [CHR 0x0A]) ?ls" by (rule readlines_join[OF cl ne])
    also have "\<dots> = map (\<lambda>j. task_line (?h ! j) @ [CHR 0x0A]) [0..<?n]" by simp
    finally show ?thesis using re by simp
  qed
  note t = flatten_parsed(2)[OF p, unfolded s(3)]
  have "\<exists>h'. for_each (walk ?n) ?h (tasks s) = Some h' \<and> walked ?h [0..<?n] ?h h'"
    by (rule walk_roots[OF t]) simp_all
  then obtain h' where h': "for_each (walk ?n) ?h (tasks s) = Some h'"
    "walked ?h [0..<?n] ?h h'" by blast
  have ok: "\<forall>u<?n. ok ?h u" using finvD(3)[OF i] by blast
  have "h' = ?h" by (rule walked_fixed[OF finvD(1)[OF i] ok h'(2)])
  then have w: "for_each (walk ?n) ?h (tasks s) = Some ?h" using h'(1) by simp
  have "parse_text ?saved = Some (Inr \<lparr>store = ?h, roots = tasks s\<rparr>)"
    unfolding parse_text_def lines using w by simp
  then show ?thesis using s(3) by simp
qed

lemma roundtrip_empty:
  "save_text empty_forest = Some [CHR 0x0A]"
  "parse_text [CHR 0x0A] = Some (Inr empty_forest)"
  by code_simp+

section \<open>Lines and the tasks made of them\<close>

lemma parse_lines_append:
  "parse_lines (xs @ ys) s =
     (case parse_lines xs s of Inl e \<Rightarrow> Inl e | Inr s' \<Rightarrow> parse_lines ys s')"
  by (induction xs arbitrary: s) (auto split: sum.splits)

lemma parse_lines_failure:
  "parse_lines ls s = Inl e \<Longrightarrow>
     \<exists>pre l rest s0. ls = pre @ l # rest \<and> parse_lines pre s = Inr s0 \<and>
        parse_line l s0 = Inl e"
proof (induction ls arbitrary: s)
  case Nil
  then show ?case by simp
next
  case (Cons a ls)
  show ?case
  proof (cases "parse_line a s")
    case (Inl e')
    then have "e' = e" using Cons.prems by simp
    then have "a # ls = [] @ a # ls \<and> parse_lines [] s = Inr s \<and> parse_line a s = Inl e"
      using Inl by simp
    then show ?thesis by blast
  next
    case (Inr s1)
    then have "parse_lines ls s1 = Inl e" using Cons.prems by simp
    from Cons.IH[OF this] obtain pre l rest s0 where
      x: "ls = pre @ l # rest" "parse_lines pre s1 = Inr s0" "parse_line l s0 = Inl e" by blast
    have "a # ls = (a # pre) @ l # rest \<and> parse_lines (a # pre) s = Inr s0 \<and>
          parse_line l s0 = Inl e"
      using x Inr by simp
    then show ?thesis by blast
  qed
qed

lemma parse_line_error_cases:
  assumes "parse_line l s = Inl e"
  shows "\<not> ignored l \<and>
         (e = ValueError (''Invalid line: '' @ rstrip_nl l) \<or>
          e = ValueError (''Nested too deeply: '' @ rstrip_nl l))"
proof -
  have ni: "\<not> ignored l"
  proof
    assume "ignored l"
    from parse_line_ignored[OF this, of s] assms show False by simp
  qed
  show ?thesis
  proof (cases "2 \<le> count_list (content_of (rstrip_nl l)) (CHR '':'')")
    case True
    from split_colon_2[OF True] obtain nm st du where
      "split_colon 2 (content_of (rstrip_nl l)) = [nm, st, du]" by blast
    from assms[unfolded parse_line_fields[OF ni this], unfolded attach_error]
    show ?thesis using ni by simp
  next
    case False
    then have "length (split_colon 2 (content_of (rstrip_nl l))) \<noteq> 3"
      using split_colon_few[of "content_of (rstrip_nl l)"] by simp
    from parse_line_invalid[OF ni this, of s] assms show ?thesis using ni by simp
  qed
qed

lemma payload_eq_status:
  assumes "payload a = payload b"
  shows "status a = status b"
  using assms by (cases a, cases b, simp add: payload_def)

lemma parse_lines_tasks:
  "pinv s \<Longrightarrow> parse_lines ls s = Inr s' \<Longrightarrow>
     length (heap s') = length (heap s) + length (filter (\<lambda>l. \<not> ignored l) ls) \<and>
     (\<forall>k<length (filter (\<lambda>l. \<not> ignored l) ls).
        \<exists>nm st du.
          split_colon 2 (content_of (rstrip_nl (filter (\<lambda>l. \<not> ignored l) ls ! k))) =
            [nm, st, du] \<and>
          name (heap s' ! (length (heap s) + k)) = strip nm \<and>
          due (heap s' ! (length (heap s) + k)) = strip du \<and>
          depth (heap s' ! (length (heap s) + k)) =
            depth_of (rstrip_nl (filter (\<lambda>l. \<not> ignored l) ls ! k)) \<and>
          status (heap s' ! (length (heap s) + k)) =
            (if strip st = [] then STATUS_DEFAULT else strip st))"
proof (induction ls arbitrary: s)
  case Nil
  then show ?case by simp
next
  case (Cons a ls)
  let ?f = "filter (\<lambda>l. \<not> ignored l)"
  from Cons.prems(2) obtain s1 where s1: "parse_line a s = Inr s1" "parse_lines ls s1 = Inr s'"
    by (auto split: sum.splits)
  note i1 = pinv_parse_line[OF Cons.prems(1) s1(1)]
  note IH = Cons.IH[OF i1 s1(2)]
  from parse_line_cases[OF s1(1)] show ?case
  proof
    assume "ignored a \<and> s1 = s"
    then show ?thesis using IH by simp
  next
    assume "\<not> ignored a \<and>
          (\<exists>nm st du. split_colon 2 (content_of (rstrip_nl a)) = [nm, st, du] \<and>
             attach (rstrip_nl a) (depth_of (rstrip_nl a)) (strip nm)
               (if strip st = [] then STATUS_DEFAULT else strip st) (strip du) s = Inr s1)"
    then obtain nm st du where ni: "\<not> ignored a"
      and sp: "split_colon 2 (content_of (rstrip_nl a)) = [nm, st, du]"
      and at: "attach (rstrip_nl a) (depth_of (rstrip_nl a)) (strip nm)
               (if strip st = [] then STATUS_DEFAULT else strip st) (strip du) s = Inr s1"
      by blast
    note n = attach_new_task[OF at]
    have f: "?f (a # ls) = a # ?f ls" using ni by simp
    have len: "length (heap s') = length (heap s) + length (?f (a # ls))"
      using IH n(1) f by simp
    from parse_lines_keeps[OF i1 s1(2)] n(1)
    have "payload (heap s' ! length (heap s)) = payload (heap s1 ! length (heap s))" by simp
    note k = payload_eq_fields[OF this] payload_eq_status[OF this]
    have z: "name (heap s' ! (length (heap s) + 0)) = strip nm \<and>
             due (heap s' ! (length (heap s) + 0)) = strip du \<and>
             depth (heap s' ! (length (heap s) + 0)) = depth_of (rstrip_nl a) \<and>
             status (heap s' ! (length (heap s) + 0)) =
               (if strip st = [] then STATUS_DEFAULT else strip st)"
      using k n by simp
    have "\<exists>nm st du.
          split_colon 2 (content_of (rstrip_nl (?f (a # ls) ! k))) = [nm, st, du] \<and>
          name (heap s' ! (length (heap s) + k)) = strip nm \<and>
          due (heap s' ! (length (heap s) + k)) = strip du \<and>
          depth (heap s' ! (length (heap s) + k)) = depth_of (rstrip_nl (?f (a # ls) ! k)) \<and>
          status (heap s' ! (length (heap s) + k)) =
            (if strip st = [] then STATUS_DEFAULT else strip st)"
      if "k < length (?f (a # ls))" for k
    proof (cases k)
      case 0
      then show ?thesis using z sp f by simp
    next
      case (Suc j)
      then have "j < length (?f ls)" using that f by simp
      from IH[THEN conjunct2, rule_format, OF this] show ?thesis
        unfolding Suc f using n(1) by simp
    qed
    then show ?thesis using len by blast
  qed
qed

lemma parse_text_lines:
  assumes "parse_text body = Some (Inr F)"
  shows "length (store F) = length (task_lines body) \<and>
         (\<forall>t<length (store F).
            \<exists>nm st du.
              split_colon 2 (content_of (rstrip_nl (task_lines body ! t))) = [nm, st, du] \<and>
              name (store F ! t) = strip nm \<and> due (store F ! t) = strip du \<and>
              depth (store F ! t) = depth_of (rstrip_nl (task_lines body ! t)) \<and>
              (children (store F ! t) = [] \<longrightarrow>
                 status (store F ! t) = (if strip st = [] then STATUS_DEFAULT else strip st)))"
proof -
  from parse_text_walked[OF assms] obtain s where s:
    "parse_lines (readlines body) initial = Inr s"
    "walked (heap s) [0..<length (heap s)] (heap s) (store F)" by blast
  note sh = walkedD(1)[OF s(2)]
  note len = same_shape_length[OF sh]
  from parse_lines_tasks[OF pinv_initial s(1)]
  have l: "length (heap s) = length (task_lines body)"
    and f: "\<And>k. k < length (task_lines body) \<Longrightarrow> \<exists>nm st du.
          split_colon 2 (content_of (rstrip_nl (task_lines body ! k))) = [nm, st, du] \<and>
          name (heap s ! k) = strip nm \<and> due (heap s ! k) = strip du \<and>
          depth (heap s ! k) = depth_of (rstrip_nl (task_lines body ! k)) \<and>
          status (heap s ! k) = (if strip st = [] then STATUS_DEFAULT else strip st)"
    by (simp_all add: task_lines_def initial_def)
  have "\<exists>nm st du.
          split_colon 2 (content_of (rstrip_nl (task_lines body ! t))) = [nm, st, du] \<and>
          name (store F ! t) = strip nm \<and> due (store F ! t) = strip du \<and>
          depth (store F ! t) = depth_of (rstrip_nl (task_lines body ! t)) \<and>
          (children (store F ! t) = [] \<longrightarrow>
             status (store F ! t) = (if strip st = [] then STATUS_DEFAULT else strip st))"
    if t: "t < length (store F)" for t
  proof -
    have th: "t < length (heap s)" using t len by simp
    note fl = same_shape_fields[OF sh th]
    from f[of t] th l obtain nm st du where x:
      "split_colon 2 (content_of (rstrip_nl (task_lines body ! t))) = [nm, st, du]"
      "name (heap s ! t) = strip nm" "due (heap s ! t) = strip du"
      "depth (heap s ! t) = depth_of (rstrip_nl (task_lines body ! t))"
      "status (heap s ! t) = (if strip st = [] then STATUS_DEFAULT else strip st)"
      by auto
    have "status (store F ! t) = (if strip st = [] then STATUS_DEFAULT else strip st)"
      if c: "children (store F ! t) = []"
    proof -
      have "children (heap s ! t) = []" using c fl(1) by simp
      from walkedD(3)[OF s(2) _ this] th have "store F ! t = heap s ! t" by simp
      then show ?thesis using x(5) by simp
    qed
    then show ?thesis using x fl by auto
  qed
  then show ?thesis using l len by simp
qed

lemma parse_file_lines:
  assumes "parse_tasks_from_file fs path = Some (Inr F)" "fs path = Text body"
  shows "length (store F) = length (task_lines body) \<and>
         (\<forall>t<length (store F).
            \<exists>nm st du.
              split_colon 2 (content_of (rstrip_nl (task_lines body ! t))) = [nm, st, du] \<and>
              name (store F ! t) = strip nm \<and> due (store F ! t) = strip du \<and>
              depth (store F ! t) = depth_of (rstrip_nl (task_lines body ! t)) \<and>
              (children (store F ! t) = [] \<longrightarrow>
                 status (store F ! t) = (if strip st = [] then STATUS_DEFAULT else strip st)))"
proof -
  have "parse_text body = Some (Inr F)" using assms by (simp add: parse_tasks_from_file_def)
  then show ?thesis by (rule parse_text_lines)
qed

lemma parse_file_error:
  assumes "fs path = Text body" "readlines body = pre @ l # rest"
    "parse_lines pre initial = Inr s" "parse_line l s = Inl e"
  shows "parse_tasks_from_file fs path = Some (Inl e)"
proof -
  have "parse_lines (readlines body) initial = Inl e"
    unfolding assms(2) parse_lines_append using assms(3,4) by simp
  from parse_text_error[OF this] show ?thesis
    using assms(1) by (simp add: parse_tasks_from_file_def)
qed

lemma parse_file_failure:
  assumes "fs path = Text body" "parse_tasks_from_file fs path = Some (Inl e)"
  shows "\<exists>pre l rest s. readlines body = pre @ l # rest \<and>
           parse_lines pre initial = Inr s \<and> parse_line l s = Inl e"
proof -
  have "parse_text body = Some (Inl e)" using assms by (simp add: parse_tasks_from_file_def)
  then have "parse_lines (readlines body) initial = Inl e"
    by (auto simp: parse_text_def split: sum.splits option.splits)
  then show ?thesis by (rule parse_lines_failure)
qed

section \<open>Loading a file that is absent or unreadable\<close>

text \<open>
  Claim C5, as stated, fails: a file that is present but may not be read does not load
  as the empty forest. \<open>open\<close> raises \<open>PermissionError\<close>, an \<open>OSError\<close> that is not
  \<open>FileNotFoundError\<close>, the only exception the parser catches, so the error reaches
  the caller. The same holds for a path that goes through a regular file: no file has
  that path, and \<open>open\<close> raises \<open>NotADirectoryError\<close>.
\<close>

theorem load_unreadable_counterexample:
  "locked_files ''tasks.lc'' = Raises PermissionError \<and>
   parse_tasks_from_file locked_files ''tasks.lc'' = Some (Inl OSError) \<and>
   parse_tasks_from_file locked_files ''tasks.lc'' \<noteq> Some (Inr empty_forest) \<and>
   blocked_files ''notes.txt/tasks.lc'' = Raises NotADirectoryError \<and>
   parse_tasks_from_file blocked_files ''notes.txt/tasks.lc'' = Some (Inl OSError) \<and>
   parse_tasks_from_file blocked_files ''notes.txt/tasks.lc'' \<noteq> Some (Inr empty_forest)"
  by (simp add: parse_tasks_from_file_def locked_files_def blocked_files_def)

text \<open>
  Claim C5, amended: loading a path at which \<open>open\<close> raises \<open>FileNotFoundError\<close>
  returns the empty forest and raises nothing. When \<open>open\<close> raises any other
  \<open>OSError\<close> (\<open>PermissionError\<close>, \<open>IsADirectoryError\<close>, \<open>NotADirectoryError\<close>) the error
  reaches the caller, and so does the \<open>UnicodeDecodeError\<close> of \<open>readlines\<close> for a file
  whose bytes are not UTF-8. So an exception of \<open>open\<close> leads to the empty forest exactly
  when it is \<open>FileNotFoundError\<close>; otherwise a load returns the empty forest only
  for a text that holds no task.
\<close>

theorem load_absent_or_unreadable:
  "parse_tasks_from_file (fs(path := Raises FileNotFoundError)) path =
     Some (Inr empty_forest) \<and>
   (\<forall>e. e \<noteq> FileNotFoundError \<longrightarrow>
      parse_tasks_from_file (fs(path := Raises e)) path = Some (Inl OSError)) \<and>
   (\<forall>e. (parse_tasks_from_file (fs(path := Raises e)) path = Some (Inr empty_forest)) =
      (e = FileNotFoundError)) \<and>
   parse_tasks_from_file (fs(path := Undecodable)) path = Some (Inl UnicodeDecodeError) \<and>
   (\<forall>F. parse_tasks_from_file fs path = Some (Inr F) \<longrightarrow>
      fs path = Raises FileNotFoundError \<and> F = empty_forest \<or>
      (\<exists>body. fs path = Text body \<and> parse_text body = Some (Inr F)))"
  using parse_file_cases[of fs path] by (simp add: parse_tasks_from_file_def)

theorem load_absent_or_unreadable_witness:
  "IsADirectoryError \<noteq> FileNotFoundError \<and>
   parse_tasks_from_file (mixed_files(''tasks'' := Raises IsADirectoryError)) ''tasks'' =
     Some (Inl OSError) \<and>
   parse_tasks_from_file (mixed_files(''none.lc'' := Raises FileNotFoundError)) ''none.lc'' =
     Some (Inr empty_forest) \<and>
   parse_tasks_from_file mixed_files ''tasks.lc'' = Some (Inr mixed) \<and>
   mixed_files ''tasks.lc'' = Text mixed_text \<and>
   parse_text mixed_text = Some (Inr mixed)"
proof -
  note th = load_absent_or_unreadable[of mixed_files]
  have 1: "IsADirectoryError \<noteq> FileNotFoundError" by simp
  note 2 = th[of "''tasks''", THEN conjunct2, THEN conjunct1, rule_format, OF 1]
  note 3 = th[of "''none.lc''", THEN conjunct1]
  note 4 = th[of "''tasks.lc''", THEN conjunct2, THEN conjunct2, THEN conjunct2,
      THEN conjunct2, rule_format, OF load_mixed]
  have 5: "mixed_files ''tasks.lc'' = Text mixed_text" by (simp add: mixed_files_def)
  from 4 5 have 6: "parse_text mixed_text = Some (Inr mixed)" by simp
  show ?thesis by (intro conjI 1 2 3 load_mixed 5 6)
qed

section \<open>Malformed lines\<close>

text \<open>
  Claim C6, as stated, fails: a line with two colons can make the parser raise a
  \<open>ValueError\<close> that carries the raw line. The line \<open>    X:OPEN:\<close> at the start of a file
  has its three fields and a depth of 1, and the parser raises
  \<open>Nested too deeply:     X:OPEN:\<close>.
\<close>

theorem two_colons_raise_counterexample:
  "\<not> ignored ''    X:OPEN:'' \<and>
   count_list (content_of (rstrip_nl ''    X:OPEN:'')) (CHR '':'') = 2 \<and>
   orphan_files ''tasks.lc'' = Text ''    X:OPEN:'' \<and>
   readlines ''    X:OPEN:'' = [''    X:OPEN:''] \<and>
   parse_tasks_from_file orphan_files ''tasks.lc'' =
     Some (Inl (ValueError ''Nested too deeply:     X:OPEN:''))"
  by code_simp

text \<open>
  Claim C6, amended. For a line that is neither blank nor a comment, reached in any
  state of the parser: the parser raises \<open>Invalid line: <raw>\<close> exactly when what follows
  the indent holds fewer than two colons; it raises \<open>Nested too deeply: <raw>\<close> exactly
  when there are two colons or more and the depth of the line exceeds the length of the
  stack; otherwise it makes a task. With two colons or more the content is cut at the
  first two only: the name and the status field hold no colon, the rest (colons
  included) is the due field, and the new task has the stripped name and the stripped
  rest as its name and due. An error at a line is the result of the load, a load that
  raises does so at one of its lines with one of these two errors, and in the forest a
  load returns the task made of a line still has that name and that due.
\<close>

theorem malformed_line_amended:
  assumes "\<not> ignored line"
  shows "((parse_line line s = Inl (ValueError (''Invalid line: '' @ rstrip_nl line))) =
            (count_list (content_of (rstrip_nl line)) (CHR '':'') < 2)) \<and>
         ((parse_line line s = Inl (ValueError (''Nested too deeply: '' @ rstrip_nl line))) =
            (2 \<le> count_list (content_of (rstrip_nl line)) (CHR '':'') \<and>
             length (stack s) < depth_of (rstrip_nl line))) \<and>
         ((\<exists>s'. parse_line line s = Inr s') =
            (2 \<le> count_list (content_of (rstrip_nl line)) (CHR '':'') \<and>
             depth_of (rstrip_nl line) \<le> length (stack s))) \<and>
         (2 \<le> count_list (content_of (rstrip_nl line)) (CHR '':'') \<longrightarrow>
            (\<exists>nm st du.
               content_of (rstrip_nl line) = nm @ '':'' @ st @ '':'' @ du \<and>
               CHR '':'' \<notin> set nm \<and> CHR '':'' \<notin> set st \<and>
               split_colon 2 (content_of (rstrip_nl line)) = [nm, st, du] \<and>
               (depth_of (rstrip_nl line) \<le> length (stack s) \<longrightarrow>
                  (\<exists>s'. parse_line line s = Inr s' \<and>
                     length (heap s') = Suc (length (heap s)) \<and>
                     name (heap s' ! length (heap s)) = strip nm \<and>
                     due (heap s' ! length (heap s)) = strip du)) \<and>
               (\<forall>fs path body F t.
                  parse_tasks_from_file fs path = Some (Inr F) \<longrightarrow> fs path = Text body \<longrightarrow>
                  t < length (task_lines body) \<longrightarrow> task_lines body ! t = line \<longrightarrow>
                  t < length (store F) \<and> name (store F ! t) = strip nm \<and>
                  due (store F ! t) = strip du))) \<and>
         (\<forall>fs path body pre rest e.
            fs path = Text body \<longrightarrow> readlines body = pre @ line # rest \<longrightarrow>
            parse_lines pre initial = Inr s \<longrightarrow> parse_line line s = Inl e \<longrightarrow>
            parse_tasks_from_file fs path = Some (Inl e)) \<and>
         (\<forall>fs path body e.
            fs path = Text body \<longrightarrow> parse_tasks_from_file fs path = Some (Inl e) \<longrightarrow>
            (\<exists>pre l rest s0.
               readlines body = pre @ l # rest \<and> parse_lines pre initial = Inr s0 \<and>
               \<not> ignored l \<and> parse_line l s0 = Inl e \<and>
               (e = ValueError (''Invalid line: '' @ rstrip_nl l) \<or>
                e = ValueError (''Nested too deeply: '' @ rstrip_nl l))))"
proof -
  let ?raw = "rstrip_nl line"
  let ?c = "count_list (content_of ?raw) (CHR '':'')"
  let ?inv = "ValueError (''Invalid line: '' @ ?raw)"
  let ?deep = "ValueError (''Nested too deeply: '' @ ?raw)"
  have ne: "?inv \<noteq> ?deep" by simp
  have lift: "\<forall>fs path body pre rest e.
            fs path = Text body \<longrightarrow> readlines body = pre @ line # rest \<longrightarrow>
            parse_lines pre initial = Inr s \<longrightarrow> parse_line line s = Inl e \<longrightarrow>
            parse_tasks_from_file fs path = Some (Inl e)"
    using parse_file_error by blast
  have fail: "\<forall>fs path body e.
            fs path = Text body \<longrightarrow> parse_tasks_from_file fs path = Some (Inl e) \<longrightarrow>
            (\<exists>pre l rest s0.
               readlines body = pre @ l # rest \<and> parse_lines pre initial = Inr s0 \<and>
               \<not> ignored l \<and> parse_line l s0 = Inl e \<and>
               (e = ValueError (''Invalid line: '' @ rstrip_nl l) \<or>
                e = ValueError (''Nested too deeply: '' @ rstrip_nl l)))"
  proof (intro allI impI)
    fix fs path body e
    assume a: "fs path = Text body" "parse_tasks_from_file fs path = Some (Inl e)"
    from parse_file_failure[OF a] obtain pre l rest s0 where
      x: "readlines body = pre @ l # rest" "parse_lines pre initial = Inr s0"
         "parse_line l s0 = Inl e" by blast
    from parse_line_error_cases[OF x(3)] x
    show "\<exists>pre l rest s0.
               readlines body = pre @ l # rest \<and> parse_lines pre initial = Inr s0 \<and>
               \<not> ignored l \<and> parse_line l s0 = Inl e \<and>
               (e = ValueError (''Invalid line: '' @ rstrip_nl l) \<or>
                e = ValueError (''Nested too deeply: '' @ rstrip_nl l))" by blast
  qed
  show ?thesis
  proof (cases "?c < 2")
    case True
    have "length (split_colon 2 (content_of ?raw)) \<noteq> 3"
      using split_colon_few[OF True] by simp
    note pl = parse_line_invalid[OF assms this, of s]
    have 1: "(parse_line line s = Inl ?inv) = (?c < 2)" using pl True by simp
    have 2: "(parse_line line s = Inl ?deep) =
               (2 \<le> ?c \<and> length (stack s) < depth_of ?raw)"
      using pl True by simp
    have 3: "(\<exists>s'. parse_line line s = Inr s') = (2 \<le> ?c \<and> depth_of ?raw \<le> length (stack s))"
      using pl True by simp
    show ?thesis using 1 2 3 True lift fail by simp
  next
    case False
    then have two: "2 \<le> ?c" by simp
    from split_colon_2[OF two] obtain nm st du where f:
      "split_colon 2 (content_of ?raw) = [nm, st, du]"
      "content_of ?raw = nm @ '':'' @ st @ '':'' @ du"
      "CHR '':'' \<notin> set nm" "CHR '':'' \<notin> set st"
      by blast
    let ?st = "if strip st = [] then STATUS_DEFAULT else strip st"
    note pl = parse_line_fields[OF assms f(1), of s]
    note ae = attach_error[of ?raw "depth_of ?raw" "strip nm" ?st "strip du" s]
    have 1: "(parse_line line s = Inl ?inv) = (?c < 2)"
      unfolding pl ae using False by auto
    have 2: "(parse_line line s = Inl ?deep) =
               (2 \<le> ?c \<and> length (stack s) < depth_of ?raw)"
      unfolding pl ae using two by simp
    have ok: "\<exists>s'. parse_line line s = Inr s'" if "depth_of ?raw \<le> length (stack s)"
    proof (cases "parse_line line s")
      case (Inl e)
      then show ?thesis using that unfolding pl ae by simp
    next
      case (Inr s')
      then show ?thesis by blast
    qed
    have ko: "depth_of ?raw \<le> length (stack s)" if "parse_line line s = Inr s'" for s'
    proof (rule ccontr)
      assume "\<not> depth_of ?raw \<le> length (stack s)"
      then have "length (stack s) < depth_of ?raw" by simp
      from attach_too_deep[OF this, of ?raw "strip nm" ?st "strip du"] that
      show False unfolding pl by simp
    qed
    have 3: "(\<exists>s'. parse_line line s = Inr s') = (2 \<le> ?c \<and> depth_of ?raw \<le> length (stack s))"
      using ok ko two by blast
    have new: "\<exists>s'. parse_line line s = Inr s' \<and>
                     length (heap s') = Suc (length (heap s)) \<and>
                     name (heap s' ! length (heap s)) = strip nm \<and>
                     due (heap s' ! length (heap s)) = strip du"
      if "depth_of ?raw \<le> length (stack s)"
    proof -
      from ok[OF that] obtain s' where s': "parse_line line s = Inr s'" by blast
      note n = attach_new_task[OF s'[unfolded pl]]
      show ?thesis using s' n(1,2,4) by blast
    qed
    have loaded: "t < length (store F) \<and> name (store F ! t) = strip nm \<and>
                due (store F ! t) = strip du"
      if "parse_tasks_from_file fs path = Some (Inr F)" "fs path = Text body"
        "t < length (task_lines body)" "task_lines body ! t = line"
      for fs path body F t
    proof -
      note pf = parse_file_lines[OF that(1,2)]
      have t: "t < length (store F)" using pf that(3) by simp
      from pf[THEN conjunct2, rule_format, OF t] show ?thesis
        unfolding that(4) f(1) using t by auto
    qed
    have 4: "\<exists>nm st du.
               content_of ?raw = nm @ '':'' @ st @ '':'' @ du \<and>
               CHR '':'' \<notin> set nm \<and> CHR '':'' \<notin> set st \<and>
               split_colon 2 (content_of ?raw) = [nm, st, du] \<and>
               (depth_of ?raw \<le> length (stack s) \<longrightarrow>
                  (\<exists>s'. parse_line line s = Inr s' \<and>
                     length (heap s') = Suc (length (heap s)) \<and>
                     name (heap s' ! length (heap s)) = strip nm \<and>
                     due (heap s' ! length (heap s)) = strip du)) \<and>
               (\<forall>fs path body F t.
                  parse_tasks_from_file fs path = Some (Inr F) \<longrightarrow> fs path = Text body \<longrightarrow>
                  t < length (task_lines body) \<longrightarrow> task_lines body ! t = line \<longrightarrow>
                  t < length (store F) \<and> name (store F ! t) = strip nm \<and>
                  due (store F ! t) = strip du)"
      using f new loaded by blast
    show ?thesis by (intro conjI impI 1 2 3 4 lift fail)
  qed
qed

theorem malformed_line_witness:
  "\<not> ignored ''Launch:OPEN: 12:30'' \<and>
   2 \<le> count_list (content_of (rstrip_nl ''Launch:OPEN: 12:30'')) (CHR '':'') \<and>
   depth_of (rstrip_nl ''Launch:OPEN: 12:30'') \<le> length (stack initial) \<and>
   split_colon 2 (content_of (rstrip_nl ''Launch:OPEN: 12:30'')) =
     [''Launch'', ''OPEN'', '' 12:30''] \<and>
   (\<exists>s'. parse_line ''Launch:OPEN: 12:30'' initial = Inr s' \<and>
      length (heap s') = Suc (length (heap initial)) \<and>
      name (heap s' ! length (heap initial)) = ''Launch'' \<and>
      due (heap s' ! length (heap initial)) = ''12:30'') \<and>
   parse_tasks_from_file timed_files ''tasks.lc'' = Some (Inr timed) \<and>
   timed_files ''tasks.lc'' = Text ''Launch:OPEN: 12:30'' \<and>
   0 < length (task_lines ''Launch:OPEN: 12:30'') \<and>
   task_lines ''Launch:OPEN: 12:30'' ! 0 = ''Launch:OPEN: 12:30'' \<and>
   0 < length (store timed) \<and>
   name (store timed ! 0) = ''Launch'' \<and> due (store timed ! 0) = ''12:30'' \<and>
   \<not> ignored ''Launch:OPEN'' \<and>
   count_list (content_of (rstrip_nl ''Launch:OPEN'')) (CHR '':'') < 2 \<and>
   short_files ''tasks.lc'' = Text ''Launch:OPEN'' \<and>
   readlines ''Launch:OPEN'' = [] @ ''Launch:OPEN'' # [] \<and>
   parse_lines [] initial = Inr initial \<and>
   parse_line ''Launch:OPEN'' initial = Inl (ValueError ''Invalid line: Launch:OPEN'') \<and>
   parse_tasks_from_file short_files ''tasks.lc'' =
     Some (Inl (ValueError ''Invalid line: Launch:OPEN''))"
proof -
  let ?l = "''Launch:OPEN: 12:30''"
  let ?k = "''Launch:OPEN''"
  have a1: "\<not> ignored ?l" by code_simp
  have a2: "2 \<le> count_list (content_of (rstrip_nl ?l)) (CHR '':'')" by code_simp
  have a3: "depth_of (rstrip_nl ?l) \<le> length (stack initial)" by code_simp
  have a4: "split_colon 2 (content_of (rstrip_nl ?l)) = [''Launch'', ''OPEN'', '' 12:30'']"
    by code_simp
  have s1: "strip ''Launch'' = ''Launch''" and s2: "strip '' 12:30'' = ''12:30''"
    by code_simp+
  have b1: "parse_tasks_from_file timed_files ''tasks.lc'' = Some (Inr timed)" by code_simp
  have b2: "timed_files ''tasks.lc'' = Text ?l" by (simp add: timed_files_def)
  have b3: "0 < length (task_lines ?l)" and b4: "task_lines ?l ! 0 = ?l" by code_simp+
  have c1: "\<not> ignored ?k" by code_simp
  have c2: "count_list (content_of (rstrip_nl ?k)) (CHR '':'') < 2" by code_simp
  have c3: "short_files ''tasks.lc'' = Text ?k" by (simp add: short_files_def)
  have c4: "readlines ?k = [] @ ?k # []" by code_simp
  have c5: "parse_lines [] initial = Inr initial" by simp
  have c6: "rstrip_nl ?k = ?k" by code_simp
  note th = malformed_line_amended[OF a1, of initial]
  from th[THEN conjunct2, THEN conjunct2, THEN conjunct2, THEN conjunct1, rule_format, OF a2]
  obtain nm st du where f: "split_colon 2 (content_of (rstrip_nl ?l)) = [nm, st, du]"
    and new: "depth_of (rstrip_nl ?l) \<le> length (stack initial) \<longrightarrow>
                  (\<exists>s'. parse_line ?l initial = Inr s' \<and>
                     length (heap s') = Suc (length (heap initial)) \<and>
                     name (heap s' ! length (heap initial)) = strip nm \<and>
                     due (heap s' ! length (heap initial)) = strip du)"
    and loaded: "\<forall>fs path body F t.
                  parse_tasks_from_file fs path = Some (Inr F) \<longrightarrow> fs path = Text body \<longrightarrow>
                  t < length (task_lines body) \<longrightarrow> task_lines body ! t = ?l \<longrightarrow>
                  t < length (store F) \<and> name (store F ! t) = strip nm \<and>
                  due (store F ! t) = strip du"
    by blast
  have nm: "strip nm = ''Launch''" and du: "strip du = ''12:30''"
    using f a4 s1 s2 by simp_all
  note d1 = new[rule_format, OF a3, unfolded nm du]
  note d2 = loaded[rule_format, OF b1 b2 b3 b4, unfolded nm du]
  note tk = malformed_line_amended[OF c1, of initial]
  have e1: "parse_line ?k initial = Inl (ValueError ''Invalid line: Launch:OPEN'')"
    using tk[THEN conjunct1] c2 c6 by simp
  note e2 = tk[THEN conjunct2, THEN conjunct2, THEN conjunct2, THEN conjunct2, THEN conjunct1,
      rule_format, where fs = short_files and path = "''tasks.lc''", OF c3 c4 c5 e1]
  show ?thesis
    by (intro conjI a1 a2 a3 a4 d1 b1 b2 b3 b4 d2[THEN conjunct1]
        d2[THEN conjunct2, THEN conjunct1] d2[THEN conjunct2, THEN conjunct2]
        c1 c2 c3 c4 c5 e1 e2)
qed

section \<open>Lines nested too deeply\<close>

text \<open>
  Claim C7: when the parser reaches a line, neither blank nor a comment, whose depth
  exceeds the length of the stack, it raises a \<open>ValueError\<close>; for a line with its
  three fields this is \<open>Nested too deeply: <raw>\<close> (a line with fewer than two
  colons has already failed as an invalid line). In particular a file whose first task
  line has a depth of 1 or more does not load: the stack is still empty there.
\<close>

theorem nested_too_deeply:
  assumes "\<forall>l\<in>set pre. ignored l" and "\<not> ignored line"
    and "length (stack s) < depth_of (rstrip_nl line)"
  shows "parse_lines (pre @ line # rest) s =
           Inl (ValueError
                  ((if 2 \<le> count_list (content_of (rstrip_nl line)) (CHR '':'')
                    then ''Nested too deeply: '' else ''Invalid line: '') @ rstrip_nl line)) \<and>
         (s = initial \<and> fs path = Text text \<and> readlines text = pre @ line # rest \<longrightarrow>
            parse_tasks_from_file fs path =
              Some (Inl (ValueError
                  ((if 2 \<le> count_list (content_of (rstrip_nl line)) (CHR '':'')
                    then ''Nested too deeply: '' else ''Invalid line: '') @ rstrip_nl line))))"
proof -
  let ?e = "ValueError
                  ((if 2 \<le> count_list (content_of (rstrip_nl line)) (CHR '':'')
                    then ''Nested too deeply: '' else ''Invalid line: '') @ rstrip_nl line)"
  have one: "parse_line line s = Inl ?e"
  proof (cases "2 \<le> count_list (content_of (rstrip_nl line)) (CHR '':'')")
    case True
    from split_colon_2[OF True] obtain nm st du where
      "split_colon 2 (content_of (rstrip_nl line)) = [nm, st, du]" by blast
    from parse_line_fields[OF assms(2) this, of s] show ?thesis
      using True attach_too_deep[OF assms(3)] by simp
  next
    case False
    then have "length (split_colon 2 (content_of (rstrip_nl line))) \<noteq> 3"
      using split_colon_few[of "content_of (rstrip_nl line)"] by simp
    from parse_line_invalid[OF assms(2) this, of s] show ?thesis using False by simp
  qed
  have all: "parse_lines (pre @ line # rest) s = Inl ?e"
    unfolding parse_lines_ignored[OF assms(1)] using one by simp
  have "parse_tasks_from_file fs path = Some (Inl ?e)"
    if "s = initial" "fs path = Text text" "readlines text = pre @ line # rest"
  proof -
    have "parse_lines (readlines text) initial = Inl ?e" using all that by simp
    from parse_text_error[OF this] show ?thesis
      using that(2) by (simp add: parse_tasks_from_file_def)
  qed
  then show ?thesis using all by blast
qed

theorem nested_too_deeply_witness:
  "ignored ''# plan\<newline>'' \<and> \<not> ignored ''    X:OPEN:'' \<and>
   length (stack initial) < depth_of (rstrip_nl ''    X:OPEN:'') \<and>
   readlines ''# plan\<newline>    X:OPEN:'' = [''# plan\<newline>''] @ ''    X:OPEN:'' # [] \<and>
   parse_tasks_from_file (\<lambda>p. Text ''# plan\<newline>    X:OPEN:'') ''tasks.lc'' =
     Some (Inl (ValueError ''Nested too deeply:     X:OPEN:''))"
proof -
  have a0: "ignored ''# plan\<newline>''" by code_simp
  then have a: "\<forall>l\<in>set [''# plan\<newline>'']. ignored l" by simp
  have b: "\<not> ignored ''    X:OPEN:''" by code_simp
  have c: "length (stack initial) < depth_of (rstrip_nl ''    X:OPEN:'')" by code_simp
  have d: "readlines ''# plan\<newline>    X:OPEN:'' = [''# plan\<newline>''] @ ''    X:OPEN:'' # []"
    by code_simp
  have e: "2 \<le> count_list (content_of (rstrip_nl ''    X:OPEN:'')) (CHR '':'')" by code_simp
  have f: "rstrip_nl ''    X:OPEN:'' = ''    X:OPEN:''" by code_simp
  show ?thesis
    using nested_too_deeply[OF a b c, of "[]" "\<lambda>p. Text ''# plan\<newline>    X:OPEN:''"
        "''tasks.lc''" "''# plan\<newline>    X:OPEN:''"] a0 b c d e f
    by simp
qed

section \<open>Status roll-up\<close>

text \<open>
  Claim C2: in the forest that \<open>parse_tasks_from_file\<close> returns, and in every forest
  that \<open>action_toggle_status\<close> and the add action make of it, every task with children
  has status DONE exactly when all its children are DONE, status OPEN exactly when all
  its children are OPEN, and status IN_PROGRESS exactly when neither is the case. This
  holds for every task of the store, so for every ancestor of the task that changed.
\<close>

theorem rollup_invariant: "reachable F \<Longrightarrow> rollup_ok F"
  by (rule finv_rollup[OF finv_reachable])

theorem rollup_invariant_witness:
  "parse_tasks_from_file mixed_files ''tasks.lc'' = Some (Inr mixed) \<and>
   action_toggle_status (Some 2) mixed =
     Some (mixed\<lparr>store := (store mixed)[2 := (store mixed ! 2)\<lparr>status := ''IN_PROGRESS''\<rparr>]\<rparr>) \<and>
   rollup_ok (mixed\<lparr>store := (store mixed)[2 := (store mixed ! 2)\<lparr>status := ''IN_PROGRESS''\<rparr>]\<rparr>)"
proof -
  have "reachable
          (mixed\<lparr>store := (store mixed)[2 := (store mixed ! 2)\<lparr>status := ''IN_PROGRESS''\<rparr>]\<rparr>)"
    by (rule reachable.toggle[OF reachable_mixed toggle_mixed])
  from rollup_invariant[OF this] show ?thesis using load_mixed toggle_mixed by simp
qed

section \<open>Toggling\<close>

text \<open>
  Claim C3: when the selected task is a leaf, \<open>action_toggle_status\<close> returns, and the
  leaf's status has gone from OPEN to IN_PROGRESS, from IN_PROGRESS to DONE, or from
  DONE to OPEN; nothing but statuses has changed, and no other leaf has changed. When
  the selected task has children, the forest is returned as it was.
\<close>

theorem toggle_cycle:
  assumes "reachable F" and "get_selected_task sel F = Some (Some t)"
  shows "(children (store F ! t) \<noteq> [] \<longrightarrow> action_toggle_status sel F = Some F) \<and>
         (children (store F ! t) = [] \<longrightarrow>
            (\<exists>F'. action_toggle_status sel F = Some F' \<and>
               (status (store F ! t) = ''OPEN'' \<longrightarrow> status (store F' ! t) = ''IN_PROGRESS'') \<and>
               (status (store F ! t) = ''IN_PROGRESS'' \<longrightarrow> status (store F' ! t) = ''DONE'') \<and>
               (status (store F ! t) = ''DONE'' \<longrightarrow> status (store F' ! t) = ''OPEN'') \<and>
               roots F' = roots F \<and> map shape (store F') = map shape (store F) \<and>
               (\<forall>u<length (store F). u \<noteq> t \<longrightarrow> children (store F ! u) = [] \<longrightarrow>
                  store F' ! u = store F ! u)))"
proof (intro conjI impI)
  assume "children (store F ! t) \<noteq> []"
  then show "action_toggle_status sel F = Some F" by (rule toggle_interior[OF assms(2)])
next
  assume l: "children (store F ! t) = []"
  from toggle_leaf[OF finv_reachable[OF assms(1)] assms(2) l] obtain h2 where h2:
    "action_toggle_status sel F = Some (F\<lparr>store := h2\<rparr>)"
    "map shape h2 = map shape (store F)"
    "h2 ! t = (store F ! t)\<lparr>status := next_status (status (store F ! t))\<rparr>"
    "\<forall>u<length (store F). u \<noteq> t \<longrightarrow> children (store F ! u) = [] \<longrightarrow> h2 ! u = store F ! u"
    by blast
  have s: "status (store (F\<lparr>store := h2\<rparr>) ! t) = next_status (status (store F ! t))"
    using h2(3) by simp
  show "\<exists>F'. action_toggle_status sel F = Some F' \<and>
               (status (store F ! t) = ''OPEN'' \<longrightarrow> status (store F' ! t) = ''IN_PROGRESS'') \<and>
               (status (store F ! t) = ''IN_PROGRESS'' \<longrightarrow> status (store F' ! t) = ''DONE'') \<and>
               (status (store F ! t) = ''DONE'' \<longrightarrow> status (store F' ! t) = ''OPEN'') \<and>
               roots F' = roots F \<and> map shape (store F') = map shape (store F) \<and>
               (\<forall>u<length (store F). u \<noteq> t \<longrightarrow> children (store F ! u) = [] \<longrightarrow>
                  store F' ! u = store F ! u)"
  proof (rule exI[of _ "F\<lparr>store := h2\<rparr>"], intro conjI impI)
    show "action_toggle_status sel F = Some (F\<lparr>store := h2\<rparr>)" by (rule h2(1))
    show "status (store (F\<lparr>store := h2\<rparr>) ! t) = ''IN_PROGRESS''"
      if "status (store F ! t) = ''OPEN''"
      unfolding s that by (rule next_status_values(1))
    show "status (store (F\<lparr>store := h2\<rparr>) ! t) = ''DONE''"
      if "status (store F ! t) = ''IN_PROGRESS''"
      unfolding s that by (rule next_status_values(2))
    show "status (store (F\<lparr>store := h2\<rparr>) ! t) = ''OPEN''"
      if "status (store F ! t) = ''DONE''"
      unfolding s that by (rule next_status_values(3))
    show "roots (F\<lparr>store := h2\<rparr>) = roots F" by simp
    show "map shape (store (F\<lparr>store := h2\<rparr>)) = map shape (store F)" using h2(2) by simp
    show "\<forall>u<length (store F). u \<noteq> t \<longrightarrow> children (store F ! u) = [] \<longrightarrow>
            store (F\<lparr>store := h2\<rparr>) ! u = store F ! u"
      using h2(4) by simp
  qed
qed

theorem toggle_cycle_witness:
  "get_selected_task (Some 2) mixed = Some (Some 2) \<and>
   children (store mixed ! 2) = [] \<and> status (store mixed ! 2) = ''OPEN'' \<and>
   (\<exists>F'. action_toggle_status (Some 2) mixed = Some F' \<and>
      status (store F' ! 2) = ''IN_PROGRESS'')"
proof -
  have l: "children (store mixed ! 2) = []" by code_simp
  have s: "status (store mixed ! 2) = ''OPEN''" by code_simp
  from toggle_cycle[OF reachable_mixed select_mixed] l s
  have "\<exists>F'. action_toggle_status (Some 2) mixed = Some F' \<and>
      status (store F' ! 2) = ''IN_PROGRESS''" by blast
  then show ?thesis using select_mixed l s by blast
qed

text \<open>
  Claim C10: when the selected leaf has a status that is none of OPEN, IN_PROGRESS and
  DONE, \<open>action_toggle_status\<close> returns and the leaf's status is IN_PROGRESS: the
  failed lookup in the cycle counts as position 0, the position of OPEN.
\<close>

theorem toggle_unknown_status:
  assumes "reachable F" and "get_selected_task sel F = Some (Some t)"
    and "children (store F ! t) = []"
    and "status (store F ! t) \<noteq> ''OPEN''" and "status (store F ! t) \<noteq> ''IN_PROGRESS''"
    and "status (store F ! t) \<noteq> ''DONE''"
  shows "\<exists>F'. action_toggle_status sel F = Some F' \<and>
           status (store F' ! t) = ''IN_PROGRESS'' \<and>
           next_status (status (store F ! t)) = next_status ''OPEN''"
proof -
  from toggle_leaf[OF finv_reachable[OF assms(1)] assms(2,3)] obtain h2 where h2:
    "action_toggle_status sel F = Some (F\<lparr>store := h2\<rparr>)"
    "h2 ! t = (store F ! t)\<lparr>status := next_status (status (store F ! t))\<rparr>"
    by blast
  have n: "next_status (status (store F ! t)) = ''IN_PROGRESS''"
    by (rule next_status_values(4)[OF assms(4,5,6)])
  have "status (store (F\<lparr>store := h2\<rparr>) ! t) = ''IN_PROGRESS''" using h2(2) n by simp
  then show ?thesis using h2(1) n next_status_values(1) by auto
qed

theorem toggle_unknown_status_witness:
  "get_selected_task (Some 0) odd = Some (Some 0) \<and> children (store odd ! 0) = [] \<and>
   status (store odd ! 0) = ''WAITING'' \<and>
   (\<exists>F'. action_toggle_status (Some 0) odd = Some F' \<and>
      status (store F' ! 0) = ''IN_PROGRESS'')"
proof -
  have l: "children (store odd ! 0) = []" by code_simp
  have s: "status (store odd ! 0) = ''WAITING''" by code_simp
  have n: "status (store odd ! 0) \<noteq> ''OPEN''" "status (store odd ! 0) \<noteq> ''IN_PROGRESS''"
    "status (store odd ! 0) \<noteq> ''DONE''" unfolding s by simp_all
  from toggle_unknown_status[OF reachable_odd select_odd l n]
  show ?thesis using select_odd l s by blast
qed

section \<open>Depths\<close>

text \<open>
  Claim C9: in the forest that \<open>parse_tasks_from_file\<close> returns, and in every forest
  the actions make of it (every add included), the depth of a task is the depth of its
  parent plus one, and the depth of a root is 0. This is stated along the parent links
  and along the children lists, which agree.
\<close>

theorem depth_invariant: "reachable F \<Longrightarrow> depth_ok F"
  by (rule finv_depth[OF finv_reachable])

theorem depth_invariant_witness:
  "parse_tasks_from_file mixed_files ''tasks.lc'' = Some (Inr mixed) \<and>
   (\<exists>F'. add_subtask_worker (Some 2) (Some (''D'', ''2025-06-01'')) mixed = Some F' \<and>
      depth_ok F' \<and> depth (store F' ! 3) = 2)"
proof -
  have i: "finv mixed" by (rule finv_reachable[OF reachable_mixed])
  have p: "2 < length (store mixed)" by code_simp
  have d: "depth (store mixed ! 2) = 1" by code_simp
  have n: "length (store mixed) = 3" by code_simp
  from add_child[OF i p, of "''D''" "''2025-06-01''"] obtain h3 where h3:
    "add_subtask_worker (Some 2) (Some (''D'', ''2025-06-01'')) mixed =
       Some \<lparr>store = h3, roots = roots mixed\<rparr>"
    "h3 ! length (store mixed) =
       \<lparr>name = ''D'', status = ''OPEN'', due = ''2025-06-01'', children = [],
          parent = Some 2, depth = depth (store mixed ! 2) + 1\<rparr>"
    by blast
  have "reachable \<lparr>store = h3, roots = roots mixed\<rparr>"
    by (rule reachable.add[OF reachable_mixed _ h3(1)]) (simp add: p)
  from depth_invariant[OF this] h3 show ?thesis using load_mixed d n by auto
qed

section \<open>Saving\<close>

text \<open>
  Claim C4, as stated, fails: \<open>save_tasks_to_file\<close> opens the file itself for writing,
  which empties it, and there is no temporary file and no rename anywhere. When the
  write fails after five characters, the save is reported as failed, and the file holds
  those five characters in place of its previous content.
\<close>

theorem save_not_atomic_counterexample:
  "mixed_files ''tasks.lc'' = Text mixed_text \<and>
   save_with_handling ''tasks.lc'' mixed (WriteFails 5) mixed_files =
     Some (Inr False, mixed_files(''tasks.lc'' := Text ''A:IN_'')) \<and>
   (mixed_files(''tasks.lc'' := Text ''A:IN_'')) ''tasks.lc'' \<noteq> mixed_files ''tasks.lc''"
  by (simp add: save_with_handling_def save_tasks_to_file_def save_text_mixed
      mixed_files_def mixed_text_def)

text \<open>
  Claim C4, amended: on a forest of the application the save returns, and a failure is
  reported: \<open>save_tasks_to_file\<close> raises \<open>OSError\<close> and \<open>save_with_handling\<close> returns
  False. When opening the file fails, the file system is unchanged. When the write
  fails after the file was opened, the file holds the part of the new text that was
  written, not its previous content. Without a failure the file holds the whole text
  and \<open>save_with_handling\<close> returns True. No other file changes.
\<close>

theorem save_failure_amended:
  assumes "reachable F"
  shows "\<exists>text. save_text F = Some text \<and>
           save_tasks_to_file path F OpenFails fs = Some (Inl OSError, fs) \<and>
           save_with_handling path F OpenFails fs = Some (Inr False, fs) \<and>
           save_tasks_to_file path F (WriteFails k) fs =
             Some (Inl OSError, fs(path := Text (take k text))) \<and>
           save_with_handling path F (WriteFails k) fs =
             Some (Inr False, fs(path := Text (take k text))) \<and>
           save_tasks_to_file path F Written fs = Some (Inr (), fs(path := Text text)) \<and>
           save_with_handling path F Written fs = Some (Inr True, fs(path := Text text))"
proof -
  from save_text_returns[OF assms] obtain body where "save_text F = Some body" by blast
  then show ?thesis
    by (simp add: save_with_handling_def save_tasks_to_file_def)
qed

theorem save_failure_witness:
  "save_text mixed = Some ''A:IN_PROGRESS:\<newline>    B:DONE:\<newline>    C:OPEN:\<newline>'' \<and>
   save_with_handling ''tasks.lc'' mixed OpenFails mixed_files = Some (Inr False, mixed_files) \<and>
   save_with_handling ''tasks.lc'' mixed Written mixed_files =
     Some (Inr True, mixed_files(''tasks.lc'' :=
        Text ''A:IN_PROGRESS:\<newline>    B:DONE:\<newline>    C:OPEN:\<newline>''))"
  using save_failure_amended[OF reachable_mixed, of "''tasks.lc''" mixed_files 0]
    save_text_mixed
  by auto

section \<open>The statuses of a forest\<close>

text \<open>
  Claim C8, as stated, fails: the parser takes the status field of a line as it is,
  so a file can load with a task whose status is none of OPEN, IN_PROGRESS and DONE.
\<close>

theorem status_enumeration_counterexample:
  "parse_tasks_from_file odd_files ''tasks.lc'' = Some (Inr odd) \<and>
   status (store odd ! 0) = ''WAITING'' \<and> status (store odd ! 0) \<notin> set STATUS_CYCLE"
  using load_odd by (simp add: odd_def STATUS_CYCLE_def)

text \<open>
  Claim C8, amended. In every forest of the application a task with children has one of
  the statuses OPEN, IN_PROGRESS and DONE, and no task has an empty status. The status
  of a task without children is not validated: in the forest that a load returns, every
  task without children has the stripped status field of its line, whatever it is, or
  OPEN when the field strips to the empty string. Toggling a leaf returns and gives the
  leaf the next status of the cycle, which is one of the three; adding a task returns
  and gives the new task the status OPEN. Both leave every other task as it was, if it
  had no children and is not the parent of the new task.
\<close>

theorem status_enumeration_amended:
  assumes "reachable F"
  shows "(\<forall>t<length (store F).
            (children (store F ! t) \<noteq> [] \<longrightarrow> status (store F ! t) \<in> set STATUS_CYCLE) \<and>
            status (store F ! t) \<noteq> []) \<and>
         (\<forall>sel t. get_selected_task sel F = Some (Some t) \<longrightarrow>
            children (store F ! t) = [] \<longrightarrow>
            (\<exists>F'. action_toggle_status sel F = Some F' \<and>
               length (store F') = length (store F) \<and>
               status (store F' ! t) = next_status (status (store F ! t)) \<and>
               status (store F' ! t) \<in> set STATUS_CYCLE \<and>
               (\<forall>u<length (store F). u \<noteq> t \<longrightarrow> children (store F ! u) = [] \<longrightarrow>
                  store F' ! u = store F ! u))) \<and>
         (\<forall>par nm du. par = None \<or> (\<exists>p. par = Some p \<and> p < length (store F)) \<longrightarrow>
            (\<exists>F'. add_subtask_worker par (Some (nm, du)) F = Some F' \<and>
               length (store F') = Suc (length (store F)) \<and>
               status (store F' ! length (store F)) = ''OPEN'' \<and>
               (\<forall>u<length (store F). par \<noteq> Some u \<longrightarrow> children (store F ! u) = [] \<longrightarrow>
                  store F' ! u = store F ! u))) \<and>
         (\<forall>fs path body G.
            parse_tasks_from_file fs path = Some (Inr G) \<longrightarrow> fs path = Text body \<longrightarrow>
            length (store G) = length (task_lines body) \<and>
            (\<forall>t<length (store G). children (store G ! t) = [] \<longrightarrow>
               (\<exists>nm st du.
                  split_colon 2 (content_of (rstrip_nl (task_lines body ! t))) = [nm, st, du] \<and>
                  status (store G ! t) = (if strip st = [] then ''OPEN'' else strip st))))"
proof -
  note i = finv_reachable[OF assms] and z = lnz_reachable[OF assms]
  have 1: "\<forall>t<length (store F).
            (children (store F ! t) \<noteq> [] \<longrightarrow> status (store F ! t) \<in> set STATUS_CYCLE) \<and>
            status (store F ! t) \<noteq> []"
    using finv_interior_status[OF i] status_nonempty[OF i z] by blast
  have 2: "\<exists>F'. action_toggle_status sel F = Some F' \<and>
               length (store F') = length (store F) \<and>
               status (store F' ! t) = next_status (status (store F ! t)) \<and>
               status (store F' ! t) \<in> set STATUS_CYCLE \<and>
               (\<forall>u<length (store F). u \<noteq> t \<longrightarrow> children (store F ! u) = [] \<longrightarrow>
                  store F' ! u = store F ! u)"
    if g: "get_selected_task sel F = Some (Some t)" and l: "children (store F ! t) = []"
    for sel t
  proof -
    from toggle_leaf[OF i g l] obtain h2 where h2:
      "action_toggle_status sel F = Some (F\<lparr>store := h2\<rparr>)"
      "map shape h2 = map shape (store F)"
      "h2 ! t = (store F ! t)\<lparr>status := next_status (status (store F ! t))\<rparr>"
      "\<forall>u<length (store F). u \<noteq> t \<longrightarrow> children (store F ! u) = [] \<longrightarrow>
              h2 ! u = store F ! u"
      by blast
    have st: "status (h2 ! t) = next_status (status (store F ! t))" using h2(3) by simp
    have "action_toggle_status sel F = Some (F\<lparr>store := h2\<rparr>) \<and>
               length (store (F\<lparr>store := h2\<rparr>)) = length (store F) \<and>
               status (store (F\<lparr>store := h2\<rparr>) ! t) = next_status (status (store F ! t)) \<and>
               status (store (F\<lparr>store := h2\<rparr>) ! t) \<in> set STATUS_CYCLE \<and>
               (\<forall>u<length (store F). u \<noteq> t \<longrightarrow> children (store F ! u) = [] \<longrightarrow>
                  store (F\<lparr>store := h2\<rparr>) ! u = store F ! u)"
      using h2(1,4) st same_shape_length[OF h2(2)] next_status_in_cycle by simp
    then show ?thesis by blast
  qed
  have 3: "\<exists>F'. add_subtask_worker par (Some (nm, du)) F = Some F' \<and>
               length (store F') = Suc (length (store F)) \<and>
               status (store F' ! length (store F)) = ''OPEN'' \<and>
               (\<forall>u<length (store F). par \<noteq> Some u \<longrightarrow> children (store F ! u) = [] \<longrightarrow>
                  store F' ! u = store F ! u)"
    if p: "par = None \<or> (\<exists>p. par = Some p \<and> p < length (store F))" for par nm du
  proof (cases par)
    case None
    from add_root[OF i, of nm du] obtain h2 where h2:
      "add_subtask_worker None (Some (nm, du)) F =
         Some \<lparr>store = h2, roots = roots F @ [length (store F)]\<rparr>"
      "length h2 = Suc (length (store F))"
      "h2 ! length (store F) =
         \<lparr>name = nm, status = ''OPEN'', due = du, children = [], parent = None, depth = 0\<rparr>"
      "\<forall>u<length (store F). children (h2 ! u) = children (store F ! u) \<and>
              (children (store F ! u) = [] \<longrightarrow> h2 ! u = store F ! u)"
      by blast
    let ?F = "\<lparr>store = h2, roots = roots F @ [length (store F)]\<rparr>"
    have "add_subtask_worker par (Some (nm, du)) F = Some ?F \<and>
               length (store ?F) = Suc (length (store F)) \<and>
               status (store ?F ! length (store F)) = ''OPEN'' \<and>
               (\<forall>u<length (store F). par \<noteq> Some u \<longrightarrow> children (store F ! u) = [] \<longrightarrow>
                  store ?F ! u = store F ! u)"
      using h2 None by simp
    then show ?thesis by blast
  next
    case (Some q)
    then have "q < length (store F)" using p by simp
    from add_child[OF i this, of nm du] obtain h3 where h3:
      "add_subtask_worker (Some q) (Some (nm, du)) F = Some \<lparr>store = h3, roots = roots F\<rparr>"
      "length h3 = Suc (length (store F))"
      "h3 ! length (store F) =
             \<lparr>name = nm, status = ''OPEN'', due = du, children = [], parent = Some q,
                depth = depth (store F ! q) + 1\<rparr>"
      "\<forall>u<length (store F). u \<noteq> q \<longrightarrow>
              children (h3 ! u) = children (store F ! u) \<and>
              (children (store F ! u) = [] \<longrightarrow> h3 ! u = store F ! u)"
      by blast
    let ?F = "\<lparr>store = h3, roots = roots F\<rparr>"
    have "add_subtask_worker par (Some (nm, du)) F = Some ?F \<and>
               length (store ?F) = Suc (length (store F)) \<and>
               status (store ?F ! length (store F)) = ''OPEN'' \<and>
               (\<forall>u<length (store F). par \<noteq> Some u \<longrightarrow> children (store F ! u) = [] \<longrightarrow>
                  store ?F ! u = store F ! u)"
      using h3 Some by auto
    then show ?thesis by blast
  qed
  have 4: "length (store G) = length (task_lines body) \<and>
            (\<forall>t<length (store G). children (store G ! t) = [] \<longrightarrow>
               (\<exists>nm st du.
                  split_colon 2 (content_of (rstrip_nl (task_lines body ! t))) = [nm, st, du] \<and>
                  status (store G ! t) = (if strip st = [] then ''OPEN'' else strip st)))"
    if a: "parse_tasks_from_file fs path = Some (Inr G)" "fs path = Text body"
    for fs path body G
  proof -
    note pf = parse_file_lines[OF a]
    have "\<exists>nm st du.
                  split_colon 2 (content_of (rstrip_nl (task_lines body ! t))) = [nm, st, du] \<and>
                  status (store G ! t) = (if strip st = [] then ''OPEN'' else strip st)"
      if t: "t < length (store G)" and c: "children (store G ! t) = []" for t
    proof -
      from pf[THEN conjunct2, rule_format, OF t] obtain nm st du where x:
        "split_colon 2 (content_of (rstrip_nl (task_lines body ! t))) = [nm, st, du]"
        "children (store G ! t) = [] \<longrightarrow>
           status (store G ! t) = (if strip st = [] then STATUS_DEFAULT else strip st)"
        by blast
      have "status (store G ! t) = (if strip st = [] then ''OPEN'' else strip st)"
        using x(2) c by (simp add: STATUS_DEFAULT_def)
      with x(1) show ?thesis by blast
    qed
    then show ?thesis using pf by blast
  qed
  show ?thesis
    apply (intro conjI)
       apply (rule 1)
      apply (intro allI impI)
      apply (rule 2; assumption)
     apply (intro allI impI)
     apply (rule 3; assumption)
    apply (intro allI impI)
    apply (rule 4; assumption)
    done
qed

theorem status_enumeration_witness:
  "0 < length (store mixed) \<and> children (store mixed ! 0) \<noteq> [] \<and>
   status (store mixed ! 0) \<in> set STATUS_CYCLE \<and>
   get_selected_task (Some 2) mixed = Some (Some 2) \<and> children (store mixed ! 2) = [] \<and>
   (\<exists>F'. action_toggle_status (Some 2) mixed = Some F' \<and>
      status (store F' ! 2) = ''IN_PROGRESS'' \<and> store F' ! 1 = store mixed ! 1) \<and>
   (\<exists>F'. add_subtask_worker None (Some (''Launch'', ''2025-06-01'')) odd = Some F' \<and>
      length (store F') = 2 \<and> status (store F' ! 1) = ''OPEN'' \<and>
      store F' ! 0 = store odd ! 0) \<and>
   parse_tasks_from_file odd_files ''tasks.lc'' = Some (Inr odd) \<and>
   odd_files ''tasks.lc'' = Text ''Review:WAITING:'' \<and>
   children (store odd ! 0) = [] \<and>
   split_colon 2 (content_of (rstrip_nl (task_lines ''Review:WAITING:'' ! 0))) =
     [''Review'', ''WAITING'', []] \<and>
   status (store odd ! 0) = ''WAITING'' \<and>
   parse_tasks_from_file milk_files ''tasks.lc'' = Some (Inr milk) \<and>
   milk_files ''tasks.lc'' = Text ''Buy milk::'' \<and>
   children (store milk ! 0) = [] \<and>
   split_colon 2 (content_of (rstrip_nl (task_lines ''Buy milk::'' ! 0))) =
     [''Buy milk'', [], []] \<and>
   status (store milk ! 0) = ''OPEN''"
proof -
  note tm = status_enumeration_amended[OF reachable_mixed]
  note tod = status_enumeration_amended[OF reachable_odd]
  have m0: "0 < length (store mixed)" and m1: "children (store mixed ! 0) \<noteq> []"
    and m2: "children (store mixed ! 2) = []" and m3: "1 < length (store mixed)"
    and m4: "children (store mixed ! 1) = []" and m5: "status (store mixed ! 2) = ''OPEN''"
    and m6: "next_status ''OPEN'' = ''IN_PROGRESS''"
    by code_simp+
  note a = tm[THEN conjunct1, rule_format, OF m0, THEN conjunct1, rule_format, OF m1]
  from tm[THEN conjunct2, THEN conjunct1, rule_format, OF select_mixed m2]
  obtain F1 where F1: "action_toggle_status (Some 2) mixed = Some F1"
    "status (store F1 ! 2) = next_status (status (store mixed ! 2))"
    "\<forall>u<length (store mixed). u \<noteq> 2 \<longrightarrow> children (store mixed ! u) = [] \<longrightarrow>
       store F1 ! u = store mixed ! u"
    by blast
  have b1: "status (store F1 ! 2) = ''IN_PROGRESS''" using F1(2) m5 m6 by simp
  have b2: "store F1 ! 1 = store mixed ! 1" using F1(3)[rule_format, OF m3 _ m4] by simp
  have b: "\<exists>F'. action_toggle_status (Some 2) mixed = Some F' \<and>
      status (store F' ! 2) = ''IN_PROGRESS'' \<and> store F' ! 1 = store mixed ! 1"
    using F1(1) b1 b2 by blast
  have o0: "0 < length (store odd)" and o1: "children (store odd ! 0) = []"
    and o2: "length (store odd) = 1"
    by code_simp+
  have p: "(None :: nat option) = None \<or> (\<exists>p. None = Some p \<and> p < length (store odd))"
    by simp
  from tod[THEN conjunct2, THEN conjunct2, THEN conjunct1, rule_format, OF p,
      of "''Launch''" "''2025-06-01''"]
  obtain F2 where F2: "add_subtask_worker None (Some (''Launch'', ''2025-06-01'')) odd = Some F2"
    "length (store F2) = Suc (length (store odd))"
    "status (store F2 ! length (store odd)) = ''OPEN''"
    "\<forall>u<length (store odd). None \<noteq> Some u \<longrightarrow> children (store odd ! u) = [] \<longrightarrow>
       store F2 ! u = store odd ! u"
    by blast
  have c1: "length (store F2) = 2" using F2(2) o2 by simp
  have c2: "status (store F2 ! 1) = ''OPEN''" using F2(3) o2 by simp
  have c3: "store F2 ! 0 = store odd ! 0" using F2(4)[rule_format, OF o0 _ o1] by simp
  have c: "\<exists>F'. add_subtask_worker None (Some (''Launch'', ''2025-06-01'')) odd = Some F' \<and>
      length (store F') = 2 \<and> status (store F' ! 1) = ''OPEN'' \<and>
      store F' ! 0 = store odd ! 0"
    using F2(1) c1 c2 c3 by blast
  note ld = tod[THEN conjunct2, THEN conjunct2, THEN conjunct2, rule_format]
  have d1: "odd_files ''tasks.lc'' = Text ''Review:WAITING:''" by (simp add: odd_files_def)
  have d2: "split_colon 2 (content_of (rstrip_nl (task_lines ''Review:WAITING:'' ! 0))) =
     [''Review'', ''WAITING'', []]" by code_simp
  have d3: "strip ''WAITING'' = ''WAITING''" by code_simp
  from ld[where fs = odd_files and path = "''tasks.lc''", OF load_odd d1, THEN conjunct2,
      rule_format, OF o0 o1]
  have d: "status (store odd ! 0) = ''WAITING''" unfolding d2 using d3 by simp
  have k0: "parse_tasks_from_file milk_files ''tasks.lc'' = Some (Inr milk)" by code_simp
  have k1: "milk_files ''tasks.lc'' = Text ''Buy milk::''" by (simp add: milk_files_def)
  have k2: "split_colon 2 (content_of (rstrip_nl (task_lines ''Buy milk::'' ! 0))) =
     [''Buy milk'', [], []]" by code_simp
  have k3: "strip [] = []" by code_simp
  have k4: "0 < length (store milk)" and k5: "children (store milk ! 0) = []" by code_simp+
  from ld[where fs = milk_files and path = "''tasks.lc''", OF k0 k1, THEN conjunct2,
      rule_format, OF k4 k5]
  have k: "status (store milk ! 0) = ''OPEN''" unfolding k2 using k3 by simp
  show ?thesis
    by (intro conjI m0 m1 a select_mixed m2 b c load_odd d1 o1 d2 d k0 k1 k5 k2 k)
qed

text \<open>
  Claim C1 (round-trip law). Let \<open>F\<close> be a forest that \<open>parse_tasks_from_file\<close> returns for
  some file system and path. Then \<open>save_tasks_to_file\<close> on \<open>F\<close>, with a write that does not
  fail, returns and stores a text at the target path, and \<open>parse_tasks_from_file\<close> on that
  path returns the forest \<open>F\<close> itself: the same roots in the same order and the same store,
  so every task has the same name, status, due, depth, parent and children in the same
  order.
\<close>

theorem save_load_roundtrip:
  assumes "parse_tasks_from_file fs path = Some (Inr F)"
  shows "\<exists>body. save_tasks_to_file target F Written fs' =
                    Some (Inr (), fs'(target := Text body)) \<and>
                parse_tasks_from_file (fs'(target := Text body)) target = Some (Inr F)"
proof -
  let ?saved = "join_nl (map (\<lambda>t. task_line (store F ! t)) [0..<length (store F)]) @
                [CHR 0x0A]"
  from parse_file_cases[OF assms] show ?thesis
  proof
    assume "fs path = Raises FileNotFoundError \<and> F = empty_forest"
    then have F: "F = empty_forest" by simp
    show ?thesis unfolding F
      by (rule exI[of _ "[CHR 0x0A]"])
        (simp add: save_tasks_to_file_def parse_tasks_from_file_def roundtrip_empty)
  next
    assume "\<exists>body. fs path = Text body \<and> parse_text body = Some (Inr F)"
    then obtain body where p: "parse_text body = Some (Inr F)" by blast
    show ?thesis
      by (rule exI[of _ ?saved])
        (simp add: save_tasks_to_file_def parse_tasks_from_file_def save_text_parsed[OF p]
          roundtrip_text[OF p])
  qed
qed

theorem save_load_roundtrip_witness:
  "parse_tasks_from_file mixed_files ''tasks.lc'' = Some (Inr mixed) \<and>
   save_tasks_to_file ''copy.lc'' mixed Written mixed_files =
     Some (Inr (), mixed_files(''copy.lc'' :=
             Text ''A:IN_PROGRESS:\<newline>    B:DONE:\<newline>    C:OPEN:\<newline>'')) \<and>
   parse_tasks_from_file
     (mixed_files(''copy.lc'' :=
        Text ''A:IN_PROGRESS:\<newline>    B:DONE:\<newline>    C:OPEN:\<newline>'')) ''copy.lc'' =
     Some (Inr mixed)"
proof -
  from save_load_roundtrip[OF load_mixed, of "''copy.lc''" mixed_files] obtain body where
    b: "save_tasks_to_file ''copy.lc'' mixed Written mixed_files =
          Some (Inr (), mixed_files(''copy.lc'' := Text body))"
       "parse_tasks_from_file (mixed_files(''copy.lc'' := Text body)) ''copy.lc'' =
          Some (Inr mixed)" by blast
  from b(1) have "mixed_files(''copy.lc'' :=
        Text ''A:IN_PROGRESS:\<newline>    B:DONE:\<newline>    C:OPEN:\<newline>'') =
      mixed_files(''copy.lc'' := Text body)"
    by (simp add: save_tasks_to_file_def save_text_mixed)
  from fun_upd_eqD[OF this]
  have "body = ''A:IN_PROGRESS:\<newline>    B:DONE:\<newline>    C:OPEN:\<newline>''" by simp
  with b load_mixed show ?thesis by simp
qed

end
